theory Spec2Isabelle
  imports Complex_Main "HOL-Library.Word"
begin

unbundle bit_operations_syntax

text \<open>
  The calibration engine of the RP2040 ADC calibrator sketch and of the application
  header \<open>ADCProfile.hpp\<close>: the sigma-delta generator, the histogram collection, the
  builder of the correction table, the boundary smoother and the persistence routines.
  Globals of the sketch are arguments and results of the functions here. What the
  routines print on \<open>Serial\<close> is left out throughout.
\<close>

section \<open>Floating-point arithmetic of the firmware\<close>

text \<open>
  The LUT builder computes in C \<open>double\<close> and the boundary smoother in C \<open>float\<close>.
  A finite IEEE-754 value is modelled by the rational number it denotes, and every
  operation is the exact rational operation followed by rounding to nearest, ties to
  even, at the format's precision (52 fraction bits for \<open>double\<close>, 23 for \<open>float\<close>).
  Exponent range is not modelled: the magnitudes the two routines produce from 32-bit
  counters and 16-bit table entries stay far inside the normal range of both formats.
\<close>

definition round_even :: "rat \<Rightarrow> int" where
  "round_even x = (let f = \<lfloor>x\<rfloor>; r = x - of_int f in
     if r < 1 / 2 then f else if 1 / 2 < r then f + 1 else if even f then f else f + 1)"

text \<open>
  \<open>round_mant q x\<close>, for positive \<open>x\<close>: scale \<open>x\<close> by a power of two into
  \<open>[2^q, 2^(q+1))\<close>, round to an integer there, scale back.
\<close>

function round_mant :: "nat \<Rightarrow> rat \<Rightarrow> rat" where
  "round_mant q x = (if x \<le> 0 then 0
     else if 2 * 2 ^ q \<le> x then 2 * round_mant q (x / 2)
     else if x < 2 ^ q then round_mant q (2 * x) / 2
     else of_int (round_even x))"
  by pat_completeness auto

definition ieee_round :: "nat \<Rightarrow> rat \<Rightarrow> rat" where
  "ieee_round q x = (if x < 0 then - round_mant q (- x) else round_mant q x)"

definition to_double :: "rat \<Rightarrow> rat" where
  "to_double x = ieee_round 52 x"

definition dadd :: "rat \<Rightarrow> rat \<Rightarrow> rat" where
  "dadd a b = to_double (a + b)"

definition ddiv :: "rat \<Rightarrow> rat \<Rightarrow> rat" where
  "ddiv a b = to_double (a / b)"

definition to_float :: "rat \<Rightarrow> rat" where
  "to_float x = ieee_round 23 x"

definition fmul :: "rat \<Rightarrow> rat \<Rightarrow> rat" where
  "fmul a b = to_float (a * b)"

definition fdiv :: "rat \<Rightarrow> rat \<Rightarrow> rat" where
  "fdiv a b = to_float (a / b)"

text \<open>C's \<open>round\<close>: to the nearest integer, halfway cases away from zero.\<close>

definition c_round :: "rat \<Rightarrow> int" where
  "c_round x = (if 0 \<le> x then \<lfloor>x + 1 / 2\<rfloor> else - \<lfloor>- x + 1 / 2\<rfloor>)"

text \<open>A C cast from a floating value to an integer type truncates towards zero.\<close>

definition c_trunc :: "rat \<Rightarrow> int" where
  "c_trunc x = (if 0 \<le> x then \<lfloor>x\<rfloor> else - \<lfloor>- x\<rfloor>)"

section \<open>Calibration data\<close>

text \<open>
  \<open>CalibrationData\<close> of the sketch. \<open>correction\<close> is \<open>int16_t[4096]\<close>: a list of
  16-bit words read as two's complement with \<open>sint\<close>. The histogram is
  \<open>uint32_t[4096]\<close>, a list of 32-bit words. Both arrays have 4096 entries in the
  program; theorems that depend on it say so.
\<close>

record CalibrationData =
  magic :: "32 word"
  correction :: "16 word list"
  adc_min :: "16 word"
  adc_max :: "16 word"

definition CAL_MAGIC :: "32 word" where
  "CAL_MAGIC = 0xCA11B8ED"

section \<open>build_correction_lut\<close>

text \<open>\<open>while (code_min < 4095 && histogram[code_min] == 0) code_min++;\<close>\<close>

function find_code_min :: "32 word list \<Rightarrow> nat \<Rightarrow> nat" where
  "find_code_min histogram code_min =
     (if code_min < 4095 \<and> histogram ! code_min = 0
      then find_code_min histogram (code_min + 1) else code_min)"
  by pat_completeness auto

text \<open>\<open>while (code_max > 0 && histogram[code_max] == 0) code_max--;\<close>\<close>

function find_code_max :: "32 word list \<Rightarrow> nat \<Rightarrow> nat" where
  "find_code_max histogram code_max =
     (if 0 < code_max \<and> histogram ! code_max = 0
      then find_code_max histogram (code_max - 1) else code_max)"
  by pat_completeness auto

text \<open>
  \<open>for (int i = code_min; i <= code_max; i++) total_samples += histogram[i];\<close>
  with \<open>uint64_t total_samples\<close>.
\<close>

function sum_samples :: "32 word list \<Rightarrow> nat \<Rightarrow> nat \<Rightarrow> 64 word \<Rightarrow> 64 word" where
  "sum_samples histogram i code_max total_samples =
     (if i \<le> code_max
      then sum_samples histogram (i + 1) code_max (total_samples + ucast (histogram ! i))
      else total_samples)"
  by pat_completeness auto

text \<open>
  The value stored by \<open>cal_data.correction[i] = (int16_t)round(ideal_code) - i\<close>:
  the cast yields an \<open>int16_t\<close>, the subtraction is done in \<open>int\<close>, the store
  narrows to 16 bits again.
\<close>

definition correction_entry :: "rat \<Rightarrow> nat \<Rightarrow> 16 word" where
  "correction_entry ideal_code i =
     word_of_int (sint (word_of_int (c_round ideal_code) :: 16 word) - int i)"

text \<open>
  The main loop \<open>for (int i = 0; i < 4096; i++)\<close>; \<open>cumulative\<close> is the running
  \<open>double\<close>, \<open>corr\<close> the table \<open>cal_data.correction\<close> being written in place.
\<close>

function lut_loop ::
  "32 word list \<Rightarrow> nat \<Rightarrow> nat \<Rightarrow> rat \<Rightarrow> nat \<Rightarrow> rat \<Rightarrow> 16 word list \<Rightarrow> 16 word list" where
  "lut_loop histogram code_min code_max expected_per_code i cumulative corr =
     (if i < 4096 then
        if i < code_min then
          lut_loop histogram code_min code_max expected_per_code (i + 1) cumulative
            (corr[i := 0])
        else if code_max < i then
          lut_loop histogram code_min code_max expected_per_code (i + 1) cumulative
            (corr[i := corr ! code_max])
        else
          (let half = ddiv (of_nat (unat (histogram ! i))) 2;
               cumulative1 = dadd cumulative half;
               ideal_code = dadd (of_nat code_min) (ddiv cumulative1 expected_per_code);
               cumulative2 = dadd cumulative1 half
           in lut_loop histogram code_min code_max expected_per_code (i + 1) cumulative2
                (corr[i := correction_entry ideal_code i]))
      else corr)"
  by pat_completeness auto

text \<open>
  The whole routine. The histogram is read only. The statistics loop that follows the
  main loop only prints and is left out. The division that yields
  \<open>expected_per_code\<close> has the \<open>int\<close> divisor \<open>code_max - code_min + 1\<close>, which is
  never zero (it is negative for an empty histogram).
\<close>

definition build_correction_lut :: "32 word list \<Rightarrow> CalibrationData \<Rightarrow> CalibrationData" where
  "build_correction_lut histogram cal_data =
     (let code_min = find_code_min histogram 0;
          code_max = find_code_max histogram 4095;
          total_samples = sum_samples histogram code_min code_max 0;
          expected_per_code =
            ddiv (to_double (of_nat (unat total_samples)))
                 (of_int (int code_max - int code_min + 1));
          corr = lut_loop histogram code_min code_max expected_per_code 0 0
                   (correction cal_data)
      in cal_data\<lparr>adc_min := of_nat code_min, adc_max := of_nat code_max,
                   correction := corr, magic := CAL_MAGIC\<rparr>)"

text \<open>
  The record as it is before any calibration: a C object of static storage, all zero.
\<close>

definition cal_default :: CalibrationData where
  "cal_default = \<lparr>magic = 0, correction = replicate 4096 0, adc_min = 0, adc_max = 0\<rparr>"

text \<open>A histogram whose only observed codes are 2000 and 2010.\<close>

definition hist_2000_2010 :: "32 word list" where
  "hist_2000_2010 = (replicate 4096 0)[2000 := 5, 2010 := 7]"

section \<open>smooth_correction_table\<close>

definition boundaries :: "int list" where
  "boundaries = [512, 1536, 2560, 3584]"

definition radius :: int where
  "radius = 16"

text \<open>
  The value stored at code \<open>i\<close> by
  \<open>float t = (float)(i - left_idx) / (right_idx - left_idx);
  cal_data.correction[i] = left_val + (int16_t)(t * (right_val - left_val));\<close>
  The differences are \<open>int\<close>s converted to \<open>float\<close>, quotient and product are
  \<open>float\<close> operations, the cast truncates, the sum is an \<open>int\<close> narrowed to 16 bits
  by the store. A cast whose operand lies outside the \<open>int16_t\<close> range is taken to
  wrap, as the narrowing store does.
\<close>

definition smooth_entry :: "int \<Rightarrow> int \<Rightarrow> 16 word \<Rightarrow> 16 word \<Rightarrow> int \<Rightarrow> 16 word" where
  "smooth_entry left_idx right_idx left_val right_val i =
     (let t = fdiv (to_float (of_int (i - left_idx))) (to_float (of_int (right_idx - left_idx)));
          d = fmul t (to_float (of_int (sint right_val - sint left_val)))
      in word_of_int (sint left_val + sint (word_of_int (c_trunc d) :: 16 word)))"

text \<open>\<open>for (int i = left_idx + 1; i < right_idx; i++)\<close>, overwriting in place.\<close>

function smooth_fill ::
  "int \<Rightarrow> int \<Rightarrow> 16 word \<Rightarrow> 16 word \<Rightarrow> int \<Rightarrow> 16 word list \<Rightarrow> 16 word list" where
  "smooth_fill left_idx right_idx left_val right_val i corr =
     (if i < right_idx
      then smooth_fill left_idx right_idx left_val right_val (i + 1)
             (corr[nat i := smooth_entry left_idx right_idx left_val right_val i])
      else corr)"
  by pat_completeness auto

text \<open>One iteration of the loop over the boundaries: the body for one \<open>center\<close>.\<close>

definition smooth_boundary :: "int \<Rightarrow> 16 word list \<Rightarrow> 16 word list" where
  "smooth_boundary center corr =
     (let left_idx = center - radius - 1;
          right_idx = center + radius;
          left_idx = (if left_idx < 0 then 0 else left_idx);
          right_idx = (if 4095 < right_idx then 4095 else right_idx);
          left_val = corr ! nat left_idx;
          right_val = corr ! nat right_idx
      in smooth_fill left_idx right_idx left_val right_val (left_idx + 1) corr)"

text \<open>\<open>for (int b = 0; b < 4; b++)\<close>\<close>

function smooth_loop :: "nat \<Rightarrow> 16 word list \<Rightarrow> 16 word list" where
  "smooth_loop b corr =
     (if b < 4 then smooth_loop (b + 1) (smooth_boundary (boundaries ! b) corr) else corr)"
  by pat_completeness auto

definition smooth_correction_table :: "CalibrationData \<Rightarrow> CalibrationData" where
  "smooth_correction_table cal_data =
     cal_data\<lparr>correction := smooth_loop 0 (correction cal_data)\<rparr>"

text \<open>
  The codes whose values a pass reads before it interpolates: for every boundary the
  clamped \<open>left_idx\<close> and \<open>right_idx\<close>.
\<close>

definition smooth_anchors :: "nat list" where
  "smooth_anchors =
     concat (map (\<lambda>center. [nat (max 0 (center - radius - 1)), nat (min 4095 (center + radius))])
       boundaries)"

section \<open>The sigma-delta DAC\<close>

text \<open>
  The generator's state: the globals \<open>sd_target\<close> and \<open>sd_accumulator\<close>, and the words
  handed to the PIO state machine with \<open>pio_sm_put\<close>, in order. Whether the TX FIFO is
  full when \<open>dac_feed_one\<close> is called is decided by the hardware and is an input.
\<close>

record dac =
  sd_target :: "32 word"
  sd_accumulator :: "32 word"
  fifo :: "32 word list"

text \<open>\<open>sd_target = ((uint32_t)(level_12bit & 0xFFF)) << 20;\<close>\<close>

definition dac_set_level :: "16 word \<Rightarrow> dac \<Rightarrow> dac" where
  "dac_set_level level_12bit s = s\<lparr>sd_target := push_bit 20 (ucast (level_12bit AND 0xFFF))\<rparr>"

text \<open>
  The loop of \<open>dac_feed_one\<close> over the 32 bit positions: the pair is \<open>(acc, word)\<close>.
\<close>

function dac_bits :: "nat \<Rightarrow> 32 word \<Rightarrow> 32 word \<Rightarrow> 32 word \<Rightarrow> 32 word \<times> 32 word" where
  "dac_bits i target acc word =
     (if i < 32 then
        (let old_acc = acc;
             acc = acc + target
         in dac_bits (i + 1) target acc (if acc < old_acc then word OR push_bit i 1 else word))
      else (acc, word))"
  by pat_completeness auto

definition dac_feed_one :: "bool \<Rightarrow> dac \<Rightarrow> bool \<times> dac" where
  "dac_feed_one tx_fifo_full s =
     (if tx_fifo_full then (False, s)
      else (let (acc, word) = dac_bits 0 (sd_target s) (sd_accumulator s) 0
            in (True, s\<lparr>sd_accumulator := acc, fifo := fifo s @ [word]\<rparr>)))"

text \<open>
  A run of calls of \<open>dac_feed_one\<close>, one for each element of the list, which says
  whether the FIFO was full at that call.
\<close>

fun dac_feed_calls :: "bool list \<Rightarrow> dac \<Rightarrow> dac" where
  "dac_feed_calls [] s = s"
| "dac_feed_calls (tx_fifo_full # rest) s = dac_feed_calls rest (snd (dac_feed_one tx_fifo_full s))"

text \<open>A generator state to start from.\<close>

definition dac_start :: dac where
  "dac_start = \<lparr>sd_target = 0, sd_accumulator = 12345, fifo = []\<rparr>"

text \<open>The number of set bits of a 32-bit word, and of a sequence of words.\<close>

definition set_bits :: "32 word \<Rightarrow> nat" where
  "set_bits w = length (filter (bit w) [0..<32])"

definition set_bits_total :: "32 word list \<Rightarrow> nat" where
  "set_bits_total ws = sum_list (map set_bits ws)"

section \<open>Persistence\<close>

text \<open>
  \<open>save_calibration\<close> and the loaders move the object representation of \<open>cal_data\<close>
  (and of \<open>histogram\<close>) to and from a file: \<open>sizeof(cal_data)\<close> bytes starting at
  \<open>&cal_data\<close>. On the RP2040 (little-endian, no padding in this struct) these are the
  4 bytes of \<open>magic\<close>, the 4096 entries of \<open>correction\<close> at 2 bytes each, the 2 bytes
  of \<open>adc_min\<close> and the 2 bytes of \<open>adc_max\<close>, every field least significant byte
  first: 8200 bytes.
\<close>

type_synonym byte = "8 word"

definition le16 :: "16 word \<Rightarrow> byte list" where
  "le16 w = [ucast w, ucast (drop_bit 8 w)]"

definition le32 :: "32 word \<Rightarrow> byte list" where
  "le32 w = [ucast w, ucast (drop_bit 8 w), ucast (drop_bit 16 w), ucast (drop_bit 24 w)]"

definition rd16 :: "byte list \<Rightarrow> nat \<Rightarrow> 16 word" where
  "rd16 bs k = ucast (bs ! k) OR push_bit 8 (ucast (bs ! (k + 1)))"

definition rd32 :: "byte list \<Rightarrow> nat \<Rightarrow> 32 word" where
  "rd32 bs k = ucast (bs ! k) OR push_bit 8 (ucast (bs ! (k + 1))) OR
     push_bit 16 (ucast (bs ! (k + 2))) OR push_bit 24 (ucast (bs ! (k + 3)))"

definition CAL_SIZE :: nat where
  "CAL_SIZE = 8200"

definition HIST_SIZE :: nat where
  "HIST_SIZE = 16384"

text \<open>The bytes of \<open>cal_data\<close>, and the record that a block of bytes at \<open>&cal_data\<close> is.\<close>

definition cal_bytes :: "CalibrationData \<Rightarrow> byte list" where
  "cal_bytes c =
     le32 (magic c) @ concat (map le16 (correction c)) @ le16 (adc_min c) @ le16 (adc_max c)"

definition cal_of_bytes :: "byte list \<Rightarrow> CalibrationData" where
  "cal_of_bytes bs =
     \<lparr>magic = rd32 bs 0,
      correction = map (\<lambda>i. rd16 bs (4 + 2 * i)) [0..<4096],
      adc_min = rd16 bs 8196,
      adc_max = rd16 bs 8198\<rparr>"

text \<open>The same for \<open>uint32_t histogram[4096]\<close>.\<close>

definition hist_bytes :: "32 word list \<Rightarrow> byte list" where
  "hist_bytes h = concat (map le32 h)"

definition hist_of_bytes :: "byte list \<Rightarrow> 32 word list" where
  "hist_of_bytes bs = map (\<lambda>i. rd32 bs (4 * i)) [0..<4096]"

text \<open>
  Modelled from the spec: the persistence collaborator (LittleFS), which the sketch calls
  and does not contain. The spec gives its surface as
  \<open>open(path, mode) -> handle|absent\<close>, \<open>read(handle, buffer, size) -> bytesRead\<close>,
  \<open>write(handle, buffer, size) -> bytesWritten\<close>, \<open>close(handle)\<close>. The store is a map
  from paths to file contents, with what the device decides as fields: whether
  \<open>LittleFS.begin()\<close> succeeds now, whether it succeeds once \<open>LittleFS.format()\<close> has
  run, and whether \<open>open(path, "w")\<close> yields a handle. Opening for reading yields a
  handle when the file exists. A write to an open file stores every byte it is given
  (the sketch ignores the count that \<open>write\<close> returns).
\<close>

record littlefs =
  begin_ok :: bool
  begin_ok_after_format :: bool
  open_w_ok :: "string \<Rightarrow> bool"
  files :: "string \<Rightarrow> byte list option"

text \<open>
  \<open>f.read(buffer, n)\<close> on a file just opened, or read up to \<open>pos\<close> before: the
  bytes from the file's position, at most \<open>n\<close> of them, replace the beginning of the
  buffer. The result is the number of bytes read and the buffer.
\<close>

definition file_read :: "byte list \<Rightarrow> nat \<Rightarrow> nat \<Rightarrow> byte list \<Rightarrow> nat \<times> byte list" where
  "file_read content pos n buffer =
     (let got = take n (drop pos content)
      in (length got, got @ drop (length got) buffer))"

text \<open>
  The text of the CSV export: \<open>f.println("code,count,correction")\<close> and one
  \<open>f.printf("%d,%lu,%d\\n", i, histogram[i], cal_data.correction[i])\<close> for each code.
\<close>

function dec :: "nat \<Rightarrow> string" where
  "dec n = (if n < 10 then [char_of (48 + n)] else dec (n div 10) @ [char_of (48 + n mod 10)])"
  by pat_completeness auto

definition sdec :: "int \<Rightarrow> string" where
  "sdec i = (if i < 0 then CHR ''-'' # dec (nat (- i)) else dec (nat i))"

definition csv_row :: "32 word list \<Rightarrow> CalibrationData \<Rightarrow> nat \<Rightarrow> string" where
  "csv_row histogram cal_data i =
     dec i @ '','' @ dec (unat (histogram ! i)) @ '','' @ sdec (sint (correction cal_data ! i)) @
     [CHR 0x0A]"

definition csv_text :: "32 word list \<Rightarrow> CalibrationData \<Rightarrow> string" where
  "csv_text histogram cal_data =
     ''code,count,correction'' @ [CHR 0x0D, CHR 0x0A] @
     concat (map (csv_row histogram cal_data) [0..<4096])"

text \<open>
  \<open>save_calibration\<close>: mount (formatting once if the mount fails), write the CSV file,
  write the binary file. Each file is written only if it could be opened.
\<close>

definition save_calibration :: "32 word list \<Rightarrow> CalibrationData \<Rightarrow> littlefs \<Rightarrow> littlefs" where
  "save_calibration histogram cal_data fs =
     (let fs = (if begin_ok fs then fs
                else fs\<lparr>files := (\<lambda>path. None), begin_ok := begin_ok_after_format fs\<rparr>)
      in if \<not> begin_ok fs then fs
         else
           (let fs = (if open_w_ok fs ''/adc_cal.csv''
                      then fs\<lparr>files := (files fs)(''/adc_cal.csv'' \<mapsto>
                             map of_char (csv_text histogram cal_data))\<rparr>
                      else fs)
            in if open_w_ok fs ''/adc_cal.bin''
               then fs\<lparr>files := (files fs)(''/adc_cal.bin'' \<mapsto> cal_bytes cal_data)\<rparr>
               else fs))"

text \<open>
  \<open>load_calibration\<close>: the result is the value returned and \<open>cal_data\<close> as the call
  leaves it. The read goes straight into \<open>cal_data\<close>.
\<close>

definition load_calibration :: "CalibrationData \<Rightarrow> littlefs \<Rightarrow> bool \<times> CalibrationData" where
  "load_calibration cal_data fs =
     (if \<not> begin_ok fs then (False, cal_data)
      else case files fs ''/adc_cal.bin'' of
        None \<Rightarrow> (False, cal_data)
      | Some content \<Rightarrow>
          (let (bytes, buffer) = file_read content 0 CAL_SIZE (cal_bytes cal_data);
               cal_data = cal_of_bytes buffer
           in (bytes = CAL_SIZE \<and> magic cal_data = CAL_MAGIC, cal_data)))"

text \<open>
  \<open>ADCProfile::load_calibration_from_file\<close> of the application header: it reads the
  histogram and then the record from one file, and smooths the table of a valid record.
  The result is the value returned, \<open>histogram\<close> and \<open>cal_data\<close>.
\<close>

definition load_calibration_from_file ::
  "32 word list \<Rightarrow> CalibrationData \<Rightarrow> littlefs \<Rightarrow> bool \<times> 32 word list \<times> CalibrationData" where
  "load_calibration_from_file histogram cal_data fs =
     (if \<not> begin_ok fs then (False, histogram, cal_data)
      else case files fs ''/histogram.bin'' of
        None \<Rightarrow> (False, histogram, cal_data)
      | Some content \<Rightarrow>
          (let (hist_size, hbuffer) = file_read content 0 HIST_SIZE (hist_bytes histogram);
               (cal_size, cbuffer) = file_read content hist_size CAL_SIZE (cal_bytes cal_data);
               histogram = hist_of_bytes hbuffer;
               cal_data = cal_of_bytes cbuffer
           in if hist_size = HIST_SIZE \<and> cal_size = CAL_SIZE \<and> magic cal_data = CAL_MAGIC
              then (True, histogram, smooth_correction_table cal_data)
              else (False, histogram, cal_data)))"

text \<open>
  A store that mounts and holds a binary file of the full size whose every byte is 1, so
  that the magic does not match; a store whose binary file is 6 bytes long; a store whose
  binary file is the magic followed by 8196 zero bytes (the all-zero record marked valid);
  and a store that does not mount before it is formatted.
\<close>

definition fs_wrong_magic :: littlefs where
  "fs_wrong_magic =
     \<lparr>begin_ok = True, begin_ok_after_format = True, open_w_ok = (\<lambda>path. True),
      files = (\<lambda>path. None)(''/adc_cal.bin'' \<mapsto> replicate 8200 1)\<rparr>"

definition fs_short :: littlefs where
  "fs_short =
     \<lparr>begin_ok = True, begin_ok_after_format = True, open_w_ok = (\<lambda>path. True),
      files = (\<lambda>path. None)(''/adc_cal.bin'' \<mapsto> [0xED, 0xB8, 0x11, 0xCA, 7, 0])\<rparr>"

definition fs_valid :: littlefs where
  "fs_valid =
     \<lparr>begin_ok = True, begin_ok_after_format = True, open_w_ok = (\<lambda>path. True),
      files = (\<lambda>path. None)(''/adc_cal.bin'' \<mapsto> [0xED, 0xB8, 0x11, 0xCA] @ replicate 8196 0)\<rparr>"

definition fs_blank :: littlefs where
  "fs_blank =
     \<lparr>begin_ok = False, begin_ok_after_format = True, open_w_ok = (\<lambda>path. True),
      files = (\<lambda>path. None)\<rparr>"

section \<open>Histogram collection\<close>

text \<open>
  The collector's state: the global \<open>histogram\<close> and the number of calls of
  \<open>adc_read\<close> made so far. What the converter returns is an input: \<open>adc k\<close> is the
  value of the \<open>k\<close>-th call. The calls that drive the DAC (\<open>dac_set_and_settle\<close>,
  \<open>dac_feed_one\<close>, the final \<open>dac_set_level(0)\<close>) change the generator's state only and
  are left out here.

  The sketch defines \<open>NUM_SWEEPS\<close> as 4. Its line for the other constant reads
  \<open>#define SAMPLES_PER_LEVEL c\<close>, which names nothing in scope, so the number of samples
  per level is a parameter \<open>samples_per_level\<close> of the model; the README gives 128 as
  its default.
\<close>

record collector =
  histogram :: "32 word list"
  adc_reads :: nat

definition NUM_SWEEPS :: int where
  "NUM_SWEEPS = 4"

text \<open>
  One pass of the sample loop's body:
  \<open>uint16_t code = adc_read(); if (code < 4096) histogram[code]++;\<close>
\<close>

definition take_sample :: "(nat \<Rightarrow> 16 word) \<Rightarrow> collector \<Rightarrow> collector" where
  "take_sample adc st =
     (let code = adc (adc_reads st);
          st = st\<lparr>adc_reads := adc_reads st + 1\<rparr>
      in if code < 4096
         then st\<lparr>histogram := (histogram st)[unat code := histogram st ! unat code + 1]\<rparr>
         else st)"

text \<open>\<open>for (int s = 0; s < SAMPLES_PER_LEVEL; s++)\<close>\<close>

function sample_loop :: "(nat \<Rightarrow> 16 word) \<Rightarrow> int \<Rightarrow> int \<Rightarrow> collector \<Rightarrow> collector" where
  "sample_loop adc samples_per_level s st =
     (if s < samples_per_level
      then sample_loop adc samples_per_level (s + 1) (take_sample adc st)
      else st)"
  by pat_completeness auto

text \<open>
  \<open>for (int level = start; ascending ? (level <= end) : (level >= end); level += step)\<close>
  with \<open>end\<close> 4095 and \<open>step\<close> 1 when ascending, 0 and -1 otherwise.
\<close>

function level_loop ::
  "(nat \<Rightarrow> 16 word) \<Rightarrow> int \<Rightarrow> bool \<Rightarrow> int \<Rightarrow> collector \<Rightarrow> collector" where
  "level_loop adc samples_per_level ascending level st =
     (if (if ascending then level \<le> 4095 else 0 \<le> level)
      then level_loop adc samples_per_level ascending
             (level + (if ascending then 1 else - 1))
             (sample_loop adc samples_per_level 0 st)
      else st)"
  by pat_completeness auto

definition collect_histogram_sweep ::
  "(nat \<Rightarrow> 16 word) \<Rightarrow> int \<Rightarrow> bool \<Rightarrow> collector \<Rightarrow> collector" where
  "collect_histogram_sweep adc samples_per_level ascending st =
     level_loop adc samples_per_level ascending (if ascending then 0 else 4095) st"

text \<open>\<open>for (int sweep = 0; sweep < NUM_SWEEPS; sweep++)\<close>\<close>

function sweep_loop :: "(nat \<Rightarrow> 16 word) \<Rightarrow> int \<Rightarrow> int \<Rightarrow> collector \<Rightarrow> collector" where
  "sweep_loop adc samples_per_level sweep st =
     (if sweep < NUM_SWEEPS
      then sweep_loop adc samples_per_level (sweep + 1)
             (collect_histogram_sweep adc samples_per_level (sweep mod 2 = 0) st)
      else st)"
  by pat_completeness auto

text \<open>\<open>memset(histogram, 0, sizeof(histogram))\<close>, then the sweeps.\<close>

definition collect_histogram :: "(nat \<Rightarrow> 16 word) \<Rightarrow> int \<Rightarrow> collector \<Rightarrow> collector" where
  "collect_histogram adc samples_per_level st =
     sweep_loop adc samples_per_level 0 (st\<lparr>histogram := replicate 4096 0\<rparr>)"

text \<open>The total of a histogram's counters.\<close>

definition hist_total :: "32 word list \<Rightarrow> nat" where
  "hist_total h = sum_list (map unat h)"

text \<open>
  Among the \<open>n\<close> readings from the \<open>a\<close>-th on, the number of codes inside 0..4095 and
  the number outside (the ones the collector discards).
\<close>

definition kept :: "(nat \<Rightarrow> 16 word) \<Rightarrow> nat \<Rightarrow> nat \<Rightarrow> nat" where
  "kept adc a n = length (filter (\<lambda>k. adc k < 4096) [a..<a + n])"

definition discarded :: "(nat \<Rightarrow> 16 word) \<Rightarrow> nat \<Rightarrow> nat \<Rightarrow> nat" where
  "discarded adc a n = length (filter (\<lambda>k. \<not> adc k < 4096) [a..<a + n])"

text \<open>
  \<open>collected adc n st st'\<close>: from \<open>st\<close> to \<open>st'\<close> the collector has read \<open>n\<close> samples
  and counted each one that was in range.
\<close>

definition collected :: "(nat \<Rightarrow> 16 word) \<Rightarrow> nat \<Rightarrow> collector \<Rightarrow> collector \<Rightarrow> bool" where
  "collected adc n st st' \<longleftrightarrow>
     length (histogram st') = 4096 \<and>
     adc_reads st' = adc_reads st + n \<and>
     hist_total (histogram st') = hist_total (histogram st) + kept adc (adc_reads st) n"

text \<open>A converter input and a collector state to run the collection on.\<close>

definition adc_ramp :: "nat \<Rightarrow> 16 word" where
  "adc_ramp k = word_of_nat k"

definition collector_start :: collector where
  "collector_start = \<lparr>histogram = replicate 4096 7, adc_reads = 0\<rparr>"

section \<open>Termination of the loops\<close>

lemma floor_half_less: "1 \<le> (x::rat) \<Longrightarrow> \<lfloor>x / 2\<rfloor> < \<lfloor>x\<rfloor>"
proof -
  assume x1: "1 \<le> x"
  have "of_int (\<lfloor>x / 2\<rfloor> + 1) \<le> x"
  proof (cases "x < 2")
    case True
    then have "\<lfloor>x / 2\<rfloor> = 0" using x1 by (simp add: floor_eq_iff)
    then show ?thesis using x1 by simp
  next
    case False
    have "of_int \<lfloor>x / 2\<rfloor> \<le> x / 2" by (rule of_int_floor_le)
    then show ?thesis using False by simp
  qed
  then have "\<lfloor>x / 2\<rfloor> + 1 \<le> \<lfloor>x\<rfloor>" by (simp only: le_floor_iff)
  then show ?thesis by simp
qed

lemma ceiling_half_less: "1 < (y::rat) \<Longrightarrow> \<lceil>y / 2\<rceil> < \<lceil>y\<rceil>"
proof -
  assume y1: "1 < y"
  have "y / 2 \<le> of_int (\<lceil>y\<rceil> - 1)"
  proof (cases "y \<le> 2")
    case True
    then have "\<lceil>y\<rceil> = 2" using y1 by (simp add: ceiling_eq_iff)
    then show ?thesis using True by simp
  next
    case False
    have "y \<le> of_int \<lceil>y\<rceil>" by (rule le_of_int_ceiling)
    then have "y / 2 \<le> of_int \<lceil>y\<rceil> - 1" using False by linarith
    then show ?thesis by simp
  qed
  then have "\<lceil>y / 2\<rceil> \<le> \<lceil>y\<rceil> - 1" by (simp only: ceiling_le_iff)
  then show ?thesis by simp
qed

lemma round_mant_down: "2 ^ q \<le> (x::rat) \<Longrightarrow> nat \<lfloor>x / 2\<rfloor> < nat \<lfloor>x\<rfloor>"
proof -
  assume a: "2 ^ q \<le> x"
  have "(1::rat) \<le> 2 ^ q" by simp
  with a have x1: "1 \<le> x" by linarith
  have "\<lfloor>x / 2\<rfloor> < \<lfloor>x\<rfloor>" using x1 by (rule floor_half_less)
  moreover have "0 < \<lfloor>x\<rfloor>" using x1 by simp
  ultimately show ?thesis by linarith
qed

lemma round_mant_down2: "2 ^ q \<le> (x::rat) \<Longrightarrow> nat \<lceil>2 ^ q / (x / 2)\<rceil> < nat \<lfloor>x\<rfloor> + 2"
proof -
  assume a: "2 ^ q \<le> x"
  have q1: "(1::rat) \<le> 2 ^ q" by simp
  with a have x1: "1 \<le> x" by linarith
  then have "0 < x" by linarith
  then have "2 ^ q / (x / 2) \<le> 2" using a by (simp add: field_simps)
  then have "\<lceil>2 ^ q / (x / 2)\<rceil> \<le> 2" by (simp add: ceiling_le_iff)
  moreover have "0 < \<lfloor>x\<rfloor>" using x1 by simp
  ultimately show ?thesis by linarith
qed

lemma round_mant_up:
  "0 < (x::rat) \<Longrightarrow> x < 2 ^ q \<Longrightarrow> nat \<lceil>2 ^ q / (2 * x)\<rceil> < nat \<lceil>2 ^ q / x\<rceil>"
proof -
  assume a: "0 < x" "x < 2 ^ q"
  then have y1: "1 < 2 ^ q / x" by (simp add: field_simps)
  define y where "y = 2 ^ q / x"
  have e: "2 ^ q / (2 * x) = y / 2" by (simp add: y_def)
  have "\<lceil>y / 2\<rceil> < \<lceil>y\<rceil>" using y1 unfolding y_def[symmetric] by (rule ceiling_half_less)
  moreover have "0 < \<lceil>y\<rceil>" using y1 unfolding y_def[symmetric] by simp
  ultimately show ?thesis unfolding e y_def[symmetric] by linarith
qed

termination round_mant
proof (relation
    "measure (\<lambda>(q, x). if 2 * 2 ^ q \<le> x then nat \<lfloor>x\<rfloor> + 2 else nat \<lceil>2 ^ q / x\<rceil>)")
  show "wf (measure (\<lambda>(q, x::rat).
      if 2 * 2 ^ q \<le> x then nat \<lfloor>x\<rfloor> + 2 else nat \<lceil>2 ^ q / x\<rceil>))"
    by simp
next
  fix q :: nat and x :: rat
  assume a: "\<not> x \<le> 0" "2 * 2 ^ q \<le> x"
  have "(1::rat) \<le> 2 ^ q" by simp
  with a have "2 ^ q \<le> x" by linarith
  then show "((q, x / 2), (q, x)) \<in> measure (\<lambda>(q, x).
      if 2 * 2 ^ q \<le> x then nat \<lfloor>x\<rfloor> + 2 else nat \<lceil>2 ^ q / x\<rceil>)"
    using a round_mant_down[of q x] round_mant_down2[of q x] by auto
next
  fix q :: nat and x :: rat
  assume a: "\<not> x \<le> 0" "\<not> 2 * 2 ^ q \<le> x" "x < 2 ^ q"
  then have "\<not> 2 * 2 ^ q \<le> 2 * x" by linarith
  then show "((q, 2 * x), (q, x)) \<in> measure (\<lambda>(q, x).
      if 2 * 2 ^ q \<le> x then nat \<lfloor>x\<rfloor> + 2 else nat \<lceil>2 ^ q / x\<rceil>)"
    using a round_mant_up[of x q] by auto
qed

termination find_code_min
  by (relation "measure (\<lambda>(h, code_min). 4095 - code_min)") auto

termination find_code_max
  by (relation "measure (\<lambda>(h, code_max). code_max)") auto

termination sum_samples
  by (relation "measure (\<lambda>(h, i, code_max, t). code_max + 1 - i)") auto

termination lut_loop
  by (relation "measure (\<lambda>(h, lo, hi, e, i, c, corr). 4096 - i)") auto

termination smooth_fill
  by (relation "measure (\<lambda>(l, r, lv, rv, i, corr). nat (r - i))") auto

termination smooth_loop
  by (relation "measure (\<lambda>(b, corr). 4 - b)") auto

declare smooth_fill.simps [simp del] smooth_loop.simps [simp del]

termination dac_bits
  by (relation "measure (\<lambda>(i, t, acc, w). 32 - i)") auto

declare dac_bits.simps [simp del]

termination sample_loop
  by (relation "measure (\<lambda>(adc, n, s, st). nat (n - s))") auto

termination level_loop
  by (relation "measure (\<lambda>(adc, n, ascending, level, st).
        if ascending then nat (4096 - level) else nat (level + 1))") auto

termination sweep_loop
  by (relation "measure (\<lambda>(adc, n, sweep, st). nat (NUM_SWEEPS - sweep))") auto

declare sample_loop.simps [simp del] level_loop.simps [simp del] sweep_loop.simps [simp del]

termination dec
  by (relation "measure id") auto

declare dec.simps [simp del]

declare round_mant.simps [simp del] find_code_min.simps [simp del]
  find_code_max.simps [simp del] sum_samples.simps [simp del] lut_loop.simps [simp del]

section \<open>Properties of build_correction_lut\<close>

lemma lut_loop_length:
  "length (lut_loop h lo hi e i c corr) = length corr"
  by (induction h lo hi e i c corr rule: lut_loop.induct)
     (subst lut_loop.simps, simp add: Let_def)

lemma lut_loop_below:
  "j < i \<Longrightarrow> lut_loop h lo hi e i c corr ! j = corr ! j"
proof (induction h lo hi e i c corr rule: lut_loop.induct)
  case (1 h lo hi e i c corr)
  show ?case
    using "1.IH" "1.prems"
    by (subst lut_loop.simps) (simp add: Let_def)
qed

lemma lut_loop_low:
  "i \<le> j \<Longrightarrow> j < lo \<Longrightarrow> j < 4096 \<Longrightarrow> j < length corr \<Longrightarrow>
   lut_loop h lo hi e i c corr ! j = 0"
proof (induction h lo hi e i c corr rule: lut_loop.induct)
  case (1 h lo hi e i c corr)
  show ?case
  proof (cases "i = j")
    case True
    then show ?thesis using "1.prems"
      by (subst lut_loop.simps) (simp add: lut_loop_below)
  next
    case False
    then show ?thesis using "1.IH" "1.prems"
      by (subst lut_loop.simps) (simp add: Let_def)
  qed
qed

lemma lut_loop_high:
  "i \<le> j \<Longrightarrow> lo \<le> j \<Longrightarrow> hi < j \<Longrightarrow> j < 4096 \<Longrightarrow> j < length corr \<Longrightarrow>
   lut_loop h lo hi e i c corr ! j = lut_loop h lo hi e i c corr ! hi"
proof (induction h lo hi e i c corr rule: lut_loop.induct)
  case (1 h lo hi e i c corr)
  show ?case
  proof (cases "i = j")
    case True
    then show ?thesis using "1.prems"
      by (subst (1 2) lut_loop.simps) (simp add: lut_loop_below)
  next
    case False
    then show ?thesis using "1.IH" "1.prems"
      by (subst (1 2) lut_loop.simps) (simp add: Let_def)
  qed
qed



lemma find_code_min_first:
  "i \<le> a \<Longrightarrow> a \<le> 4095 \<Longrightarrow> (\<forall>j. i \<le> j \<and> j < a \<longrightarrow> h ! j = 0) \<Longrightarrow> (a < 4095 \<Longrightarrow> h ! a \<noteq> 0) \<Longrightarrow>
   find_code_min h i = a"
proof (induction h i rule: find_code_min.induct)
  case (1 h i)
  show ?case
  proof (cases "i = a")
    case True
    then show ?thesis using "1.prems" by (subst find_code_min.simps) auto
  next
    case False
    then have "i < a" using "1.prems" by simp
    then show ?thesis using "1.IH" "1.prems" by (subst find_code_min.simps) auto
  qed
qed

lemma find_code_max_last:
  "b \<le> i \<Longrightarrow> (\<forall>j. b < j \<and> j \<le> i \<longrightarrow> h ! j = 0) \<Longrightarrow> (0 < b \<Longrightarrow> h ! b \<noteq> 0) \<Longrightarrow>
   find_code_max h i = b"
proof (induction h i rule: find_code_max.induct)
  case (1 h i)
  show ?case
  proof (cases "i = b")
    case True
    then show ?thesis using "1.prems" by (subst find_code_max.simps) auto
  next
    case False
    then have bi: "b < i" using "1.prems" by simp
    then have c: "0 < i \<and> h ! i = 0" using "1.prems" by simp
    have "find_code_max h (i - 1) = b"
    proof (rule "1.IH" [OF c])
      show "b \<le> i - 1" using bi by simp
      show "\<forall>j. b < j \<and> j \<le> i - 1 \<longrightarrow> h ! j = 0" using "1.prems" by auto
      show "0 < b \<Longrightarrow> h ! b \<noteq> 0" using "1.prems" by simp
    qed
    moreover have "find_code_max h i = find_code_max h (i - 1)"
      using c by (subst find_code_max.simps) simp
    ultimately show ?thesis by simp
  qed
qed

lemma find_code_min_empty: "find_code_min (replicate 4096 0) 0 = 4095"
  by (rule find_code_min_first) simp_all

lemma find_code_max_empty: "find_code_max (replicate 4096 0) 4095 = 0"
  by (rule find_code_max_last) simp_all

text \<open>
  Claim C10. For a histogram that is zero everywhere, \<open>build_correction_lut\<close> returns
  (the model is a total function) with the inverted range \<open>adc_min = 4095\<close>,
  \<open>adc_max = 0\<close>, every correction entry 0 and the magic set to \<open>0xCA11B8ED\<close>.
\<close>

theorem build_lut_empty_histogram:
  assumes len: "length (correction cal_data) = 4096"
  shows "adc_min (build_correction_lut (replicate 4096 0) cal_data) = 4095 \<and>
         adc_max (build_correction_lut (replicate 4096 0) cal_data) = 0 \<and>
         correction (build_correction_lut (replicate 4096 0) cal_data) = replicate 4096 0 \<and>
         magic (build_correction_lut (replicate 4096 0) cal_data) = 0xCA11B8ED"
proof -
  let ?h = "replicate 4096 (0 :: 32 word)"
  define e where "e = ddiv (to_double (of_nat (unat (sum_samples ?h 4095 0 0))))
                        (of_int (int 0 - int 4095 + 1))"
  define t where "t = lut_loop ?h 4095 0 e 0 0 (correction cal_data)"
  have r: "build_correction_lut ?h cal_data =
        cal_data\<lparr>adc_min := 4095, adc_max := 0, correction := t, magic := CAL_MAGIC\<rparr>"
    by (simp add: build_correction_lut_def find_code_min_empty find_code_max_empty
        Let_def t_def e_def)
  have tl: "length t = 4096" by (simp add: t_def lut_loop_length len)
  have low: "t ! j = 0" if "j < 4095" for j
    unfolding t_def using that by (intro lut_loop_low) (simp_all add: len)
  have "t ! 4095 = t ! 0"
    unfolding t_def by (intro lut_loop_high) (simp_all add: len)
  then have top: "t ! 4095 = 0" using low [of 0] by simp
  have "t ! j = 0" if "j < 4096" for j
  proof (cases "j = 4095")
    case True
    then show ?thesis using top by simp
  next
    case False
    then show ?thesis using that low [of j] by simp
  qed
  then have "t = replicate 4096 0"
    using tl by (intro nth_equalityI) simp_all
  then show ?thesis by (simp add: r CAL_MAGIC_def)
qed

theorem build_lut_empty_histogram_witness:
  "length (correction cal_default) = 4096 \<and>
   adc_min (build_correction_lut (replicate 4096 0) cal_default) = 4095 \<and>
   adc_max (build_correction_lut (replicate 4096 0) cal_default) = 0 \<and>
   correction (build_correction_lut (replicate 4096 0) cal_default) = replicate 4096 0 \<and>
   magic (build_correction_lut (replicate 4096 0) cal_default) = 0xCA11B8ED"
  using build_lut_empty_histogram [of cal_default] by (simp add: cal_default_def)

lemma build_lut_range:
  assumes a: "a < 4096" and b: "b < 4096"
    and outside: "\<forall>j < 4096. j < a \<or> b < j \<longrightarrow> hist ! j = 0"
    and na: "hist ! a \<noteq> 0" and nb: "hist ! b \<noteq> 0"
  shows "unat (adc_min (build_correction_lut hist cal_data)) = a"
    and "unat (adc_max (build_correction_lut hist cal_data)) = b"
proof -
  have lo: "find_code_min hist 0 = a"
    using a outside na by (intro find_code_min_first) auto
  have hi: "find_code_max hist 4095 = b"
    using b outside nb by (intro find_code_max_last) auto
  have ua: "unat (of_nat a :: 16 word) = a" using a by (simp add: unat_of_nat)
  have ub: "unat (of_nat b :: 16 word) = b" using b by (simp add: unat_of_nat)
  show "unat (adc_min (build_correction_lut hist cal_data)) = a"
    by (simp add: build_correction_lut_def Let_def lo ua)
  show "unat (adc_max (build_correction_lut hist cal_data)) = b"
    by (simp add: build_correction_lut_def Let_def hi ub)
qed

lemma hist_2000_2010_outside:
  "\<forall>j < 4096. j < 2000 \<or> 2010 < j \<longrightarrow> hist_2000_2010 ! j = 0"
  by (simp add: hist_2000_2010_def)

lemma hist_2000_2010_ends: "hist_2000_2010 ! 2000 \<noteq> 0" "hist_2000_2010 ! 2010 \<noteq> 0"
  by (simp_all add: hist_2000_2010_def)


text \<open>
  Claim C5. If the histogram is zero at every code outside \<open>[a, b]\<close> and nonzero at
  \<open>a\<close> and at \<open>b\<close>, then \<open>build_correction_lut\<close> stores \<open>adc_min = a\<close> and
  \<open>adc_max = b\<close>.
\<close>

theorem range_trim:
  assumes "a < 4096" and "b < 4096"
    and "\<forall>j < 4096. j < a \<or> b < j \<longrightarrow> hist ! j = 0"
    and "hist ! a \<noteq> 0" and "hist ! b \<noteq> 0"
  shows "unat (adc_min (build_correction_lut hist cal_data)) = a \<and>
         unat (adc_max (build_correction_lut hist cal_data)) = b"
  using assms build_lut_range [of a b hist cal_data] by simp

theorem range_trim_witness:
  "unat (adc_min (build_correction_lut hist_2000_2010 cal_default)) = 2000 \<and>
   unat (adc_max (build_correction_lut hist_2000_2010 cal_default)) = 2010"
  using range_trim [of 2000 2010 hist_2000_2010 cal_default, OF _ _
      hist_2000_2010_outside hist_2000_2010_ends]
  by simp



subsection \<open>Exactly representable values\<close>

lemma round_even_of_nat: "round_even (of_nat n) = int n"
  by (simp add: round_even_def Let_def)

lemma round_mant_exact_aux:
  "(\<exists>n k. x = of_nat n / 2 ^ k \<and> n < 2 * 2 ^ q) \<longrightarrow> round_mant q x = x"
proof (induction q x rule: round_mant.induct)
  case (1 q x)
  show ?case
  proof
    assume "\<exists>n k. x = of_nat n / 2 ^ k \<and> n < 2 * 2 ^ q"
    then obtain n k where x: "x = of_nat n / 2 ^ k" and n: "n < 2 * 2 ^ q" by blast
    have xn: "x \<le> of_nat n"
    proof -
      have "(1::rat) \<le> 2 ^ k" by simp
      then have "of_nat n / (2::rat) ^ k \<le> of_nat n / 1"
        by (intro divide_left_mono) simp_all
      then show ?thesis by (simp add: x)
    qed
    have nq: "(of_nat n :: rat) < 2 * 2 ^ q"
    proof -
      have "(of_nat n :: rat) < of_nat (2 * 2 ^ q)" using n by (simp only: of_nat_less_iff)
      then show ?thesis by simp
    qed
    have x0: "0 \<le> x" by (simp add: x)
    consider (zero) "x \<le> 0" | (up) "0 < x" "x < 2 ^ q" | (mid) "2 ^ q \<le> x" by linarith
    then show "round_mant q x = x"
    proof cases
      case zero
      then show ?thesis using x0 by (subst round_mant.simps) simp
    next
      case up
      have c: "\<not> x \<le> 0" "\<not> 2 * 2 ^ q \<le> x" using up xn nq by linarith+
      have rep: "\<exists>n' k'. 2 * x = of_nat n' / 2 ^ k' \<and> n' < 2 * 2 ^ q"
      proof (cases k)
        case 0
        then have "x = of_nat n" by (simp add: x)
        then have "(of_nat n :: rat) < of_nat (2 ^ q)" using up by simp
        then have "n < 2 ^ q" by (simp only: of_nat_less_iff)
        then have "2 * x = of_nat (2 * n) / 2 ^ 0 \<and> 2 * n < 2 * 2 ^ q"
          using \<open>x = of_nat n\<close> by simp
        then show ?thesis by blast
      next
        case (Suc k')
        then have "2 * x = of_nat n / 2 ^ k'" by (simp add: x)
        then show ?thesis using n by blast
      qed
      have "round_mant q (2 * x) = 2 * x"
        using "1.IH"(2) [OF c up(2)] rep by blast
      then show ?thesis using c up by (subst round_mant.simps) simp
    next
      case mid
      have c: "\<not> x \<le> 0" "\<not> 2 * 2 ^ q \<le> x" "\<not> x < 2 ^ q"
      proof -
        have "(0::rat) < 2 ^ q" by simp
        then show "\<not> x \<le> 0" using mid by linarith
        show "\<not> 2 * 2 ^ q \<le> x" using xn nq by linarith
        show "\<not> x < 2 ^ q" using mid by linarith
      qed
      have "k = 0"
      proof (rule ccontr)
        assume "k \<noteq> 0"
        then obtain k' where k': "k = Suc k'" by (cases k) simp_all
        have "(1::rat) \<le> 2 ^ k'" by simp
        then have "(2::rat) \<le> 2 ^ k" by (simp add: k')
        have "2 ^ q * 2 ^ k \<le> (of_nat n :: rat)"
          using mid by (simp add: x field_simps)
        moreover have "(2::rat) ^ q * 2 \<le> 2 ^ q * 2 ^ k"
          using \<open>(2::rat) \<le> 2 ^ k\<close> by (intro mult_left_mono) simp_all
        ultimately show False using nq by linarith
      qed
      then have "x = of_nat n" by (simp add: x)
      then show ?thesis using c
        by (subst round_mant.simps) (simp add: round_even_of_nat)
    qed
  qed
qed

lemma to_double_exact: "n < 2 ^ 53 \<Longrightarrow> to_double (of_nat n / 2 ^ k) = of_nat n / 2 ^ k"
proof -
  assume "n < 2 ^ 53"
  then have "\<exists>n' k'. (of_nat n / 2 ^ k :: rat) = of_nat n' / 2 ^ k' \<and> n' < 2 * 2 ^ 52"
    by (intro exI [of _ n] exI [of _ k]) simp
  then have "round_mant 52 (of_nat n / 2 ^ k) = of_nat n / 2 ^ k"
    using round_mant_exact_aux [of "of_nat n / 2 ^ k" 52] by blast
  moreover have "\<not> (of_nat n / 2 ^ k :: rat) < 0" by (simp add: not_less)
  ultimately show ?thesis by (simp add: to_double_def ieee_round_def)
qed

subsection \<open>The uniform histogram\<close>

lemma sint16_small: "- 32768 \<le> x \<Longrightarrow> x < 32768 \<Longrightarrow> sint (word_of_int x :: 16 word) = x"
  by (simp add: sint_sbintrunc' signed_take_bit_int_eq_self)

lemma to_double_nat: "n < 2 ^ 53 \<Longrightarrow> to_double (of_nat n) = of_nat n"
  using to_double_exact [of n 0] by simp

lemma to_double_half: "n < 2 ^ 53 \<Longrightarrow> to_double (of_nat n / 2) = of_nat n / 2"
  using to_double_exact [of n 1] by simp

lemma sum_samples_replicate:
  "i + n = 4096 \<Longrightarrow> sum_samples (replicate 4096 c) i 4095 t = t + of_nat n * ucast c"
proof (induction n arbitrary: i t)
  case 0
  then show ?case by (subst sum_samples.simps) simp
next
  case (Suc n)
  then have i: "i \<le> 4095" "i < 4096" "Suc i + n = 4096" by simp_all
  show ?case
    using i(1,2) Suc.IH [OF i(3)]
    by (subst sum_samples.simps) (simp add: algebra_simps)
qed

lemma uniform_step:
  assumes i: "i < 4096"
  shows "correction_entry (dadd (of_nat 0)
           (ddiv (dadd (100 * of_nat i) (ddiv (of_nat (unat (100 :: 32 word))) 2)) 100)) i = 1"
    and "dadd (dadd (100 * of_nat i) (ddiv (of_nat (unat (100 :: 32 word))) 2))
           (ddiv (of_nat (unat (100 :: 32 word))) 2) = 100 * of_nat (i + 1)"
proof -
  have half: "ddiv (of_nat (unat (100 :: 32 word))) 2 = 50"
    using to_double_nat [of 50] by (simp add: ddiv_def)
  have "dadd (100 * of_nat i) 50 = to_double (of_nat (100 * i + 50))"
    by (simp add: dadd_def)
  also have "\<dots> = of_nat (100 * i + 50)"
    using i by (intro to_double_nat) simp
  finally have c1: "dadd (100 * of_nat i) 50 = of_nat (100 * i + 50)" .
  have "(of_nat (100 * i + 50) / 100 :: rat) = of_nat (2 * i + 1) / 2"
    by (simp add: field_simps)
  then have "ddiv (of_nat (100 * i + 50)) 100 = to_double (of_nat (2 * i + 1) / 2)"
    by (simp only: ddiv_def)
  also have "\<dots> = of_nat (2 * i + 1) / 2"
    using i by (intro to_double_half) simp
  finally have q: "ddiv (of_nat (100 * i + 50)) 100 = of_nat (2 * i + 1) / 2" .
  have "dadd (of_nat 0) (of_nat (2 * i + 1) / 2) = to_double (of_nat (2 * i + 1) / 2)"
    by (simp add: dadd_def)
  also have "\<dots> = of_nat (2 * i + 1) / 2"
    using i by (intro to_double_half) simp
  finally have ideal: "dadd (of_nat 0) (of_nat (2 * i + 1) / 2) = of_nat (2 * i + 1) / 2" .
  have "(of_nat (2 * i + 1) / 2 + 1 / 2 :: rat) = of_int (int i + 1)"
    by (simp add: field_simps)
  then have "\<lfloor>of_nat (2 * i + 1) / 2 + 1 / 2 :: rat\<rfloor> = int i + 1"
    by (simp only: floor_of_int)
  moreover have "(0::rat) \<le> of_nat (2 * i + 1) / 2" by simp
  ultimately have r: "c_round (of_nat (2 * i + 1) / 2) = int i + 1"
    by (simp only: c_round_def if_True)
  have "sint (word_of_int (int i + 1) :: 16 word) = int i + 1"
    using i by (intro sint16_small) simp_all
  then show "correction_entry (dadd (of_nat 0)
           (ddiv (dadd (100 * of_nat i) (ddiv (of_nat (unat (100 :: 32 word))) 2)) 100)) i = 1"
    by (simp only: half c1 q ideal r correction_entry_def) simp
  have "dadd (of_nat (100 * i + 50)) 50 = to_double (of_nat (100 * (i + 1)))"
    by (simp add: dadd_def)
  also have "\<dots> = of_nat (100 * (i + 1))"
    using i by (intro to_double_nat) simp
  finally show "dadd (dadd (100 * of_nat i) (ddiv (of_nat (unat (100 :: 32 word))) 2))
           (ddiv (of_nat (unat (100 :: 32 word))) 2) = 100 * of_nat (i + 1)"
    by (simp only: half c1)
qed

lemma lut_loop_uniform:
  "i + n = 4096 \<Longrightarrow> length corr = 4096 \<Longrightarrow> (\<forall>j < i. corr ! j = 1) \<Longrightarrow>
   lut_loop (replicate 4096 100) 0 4095 100 i (100 * of_nat i) corr = replicate 4096 1"
proof (induction n arbitrary: i corr)
  case 0
  then have "i = 4096" by simp
  then have "lut_loop (replicate 4096 100) 0 4095 100 i (100 * of_nat i) corr = corr"
    by (subst lut_loop.simps) simp
  moreover have "corr = replicate 4096 1"
    using 0 by (intro nth_equalityI) simp_all
  ultimately show ?case by simp
next
  case (Suc n)
  then have i: "i < 4096" by simp
  let ?corr = "corr[i := 1]"
  have "lut_loop (replicate 4096 100) 0 4095 100 (i + 1) (100 * of_nat (i + 1)) ?corr
        = replicate 4096 1"
  proof (rule Suc.IH)
    show "i + 1 + n = 4096" using Suc.prems by simp
    show "length ?corr = 4096" using Suc.prems by simp
    show "\<forall>j < i + 1. ?corr ! j = 1"
      using Suc.prems i by (auto simp: nth_list_update)
  qed
  moreover have "lut_loop (replicate 4096 100) 0 4095 100 i (100 * of_nat i) corr =
      lut_loop (replicate 4096 100) 0 4095 100 (i + 1) (100 * of_nat (i + 1)) ?corr"
    using i uniform_step [OF i]
    by (subst lut_loop.simps) (simp add: Let_def)
  ultimately show ?case by simp
qed

text \<open>
  Claim C1. The claim asks that a uniform histogram (every count 100, so that the trimmed
  range is 0 to 4095) yields correction 0 at every code. The routine computes the bin
  centre \<open>i + 1/2\<close> as ideal code and rounds it half away from zero, to \<open>i + 1\<close>: on
  that histogram every one of the 4096 corrections is 1.
\<close>

theorem uniform_histogram_correction:
  "adc_min (build_correction_lut (replicate 4096 100) cal_default) = 0 \<and>
   adc_max (build_correction_lut (replicate 4096 100) cal_default) = 4095 \<and>
   correction (build_correction_lut (replicate 4096 100) cal_default) = replicate 4096 1"
proof -
  let ?h = "replicate 4096 (100 :: 32 word)"
  have lo: "find_code_min ?h 0 = 0" by (subst find_code_min.simps) simp
  have hi: "find_code_max ?h 4095 = 4095" by (subst find_code_max.simps) simp
  have tot: "sum_samples ?h 0 4095 0 = 409600"
    using sum_samples_replicate [of 0 4096 100 0] by simp
  have "to_double 409600 = 409600" using to_double_nat [of 409600] by simp
  moreover have "to_double 100 = 100" using to_double_nat [of 100] by simp
  ultimately have e: "ddiv (to_double 409600) 4096 = 100" by (simp add: ddiv_def)
  have "lut_loop ?h 0 4095 100 0 (100 * of_nat 0) (correction cal_default) = replicate 4096 1"
    by (rule lut_loop_uniform [of 0 4096]) (simp_all add: cal_default_def)
  then show ?thesis
    by (simp add: build_correction_lut_def Let_def lo hi tot e)
qed

section \<open>Properties of smooth_correction_table\<close>

lemma smooth_fill_length:
  "length (smooth_fill l r lv rv i corr) = length corr"
  by (induction l r lv rv i corr rule: smooth_fill.induct)
     (subst smooth_fill.simps, simp)

lemma smooth_fill_outside:
  "int j < i \<or> r \<le> int j \<Longrightarrow> 0 \<le> i \<Longrightarrow> smooth_fill l r lv rv i corr ! j = corr ! j"
proof (induction l r lv rv i corr rule: smooth_fill.induct)
  case (1 l r lv rv i corr)
  show ?case
  proof (cases "i < r")
    case True
    have "nat i \<noteq> j" using "1.prems" True by linarith
    moreover have "smooth_fill l r lv rv (i + 1) (corr[nat i := smooth_entry l r lv rv i]) ! j
        = (corr[nat i := smooth_entry l r lv rv i]) ! j"
      using "1.prems" True by (intro "1.IH") auto
    ultimately show ?thesis using True by (subst smooth_fill.simps) simp
  next
    case False
    then show ?thesis by (subst smooth_fill.simps) simp
  qed
qed

lemma smooth_fill_inside:
  "i \<le> int j \<Longrightarrow> int j < r \<Longrightarrow> 0 \<le> i \<Longrightarrow> j < length corr \<Longrightarrow>
   smooth_fill l r lv rv i corr ! j = smooth_entry l r lv rv (int j)"
proof (induction l r lv rv i corr rule: smooth_fill.induct)
  case (1 l r lv rv i corr)
  have ir: "i < r" using "1.prems" by linarith
  show ?case
  proof (cases "i = int j")
    case True
    have "smooth_fill l r lv rv (i + 1) (corr[nat i := smooth_entry l r lv rv i]) ! j
        = (corr[nat i := smooth_entry l r lv rv i]) ! j"
      using True "1.prems" by (intro smooth_fill_outside) auto
    then show ?thesis using ir True "1.prems" by (subst smooth_fill.simps) simp
  next
    case False
    have "smooth_fill l r lv rv (i + 1) (corr[nat i := smooth_entry l r lv rv i]) ! j
        = smooth_entry l r lv rv (int j)"
      using False "1.prems" ir by (intro "1.IH") auto
    then show ?thesis using ir by (subst smooth_fill.simps) simp
  qed
qed


lemma smooth_boundary_length: "length (smooth_boundary c corr) = length corr"
  by (simp add: smooth_boundary_def Let_def smooth_fill_length)

lemma smooth_boundary_nth:
  assumes c: "17 \<le> c" "c \<le> 4079" and j: "j < length corr"
  shows "smooth_boundary c corr ! j =
     (if c - 17 < int j \<and> int j < c + 16
      then smooth_entry (c - 17) (c + 16) (corr ! nat (c - 17)) (corr ! nat (c + 16)) (int j)
      else corr ! j)"
proof -
  have sb: "smooth_boundary c corr =
      smooth_fill (c - 17) (c + 16) (corr ! nat (c - 17)) (corr ! nat (c + 16)) (c - 17 + 1) corr"
    using c by (simp add: smooth_boundary_def radius_def Let_def)
  show ?thesis
  proof (cases "c - 17 < int j \<and> int j < c + 16")
    case True
    have "smooth_fill (c - 17) (c + 16) (corr ! nat (c - 17)) (corr ! nat (c + 16))
            (c - 17 + 1) corr ! j =
          smooth_entry (c - 17) (c + 16) (corr ! nat (c - 17)) (corr ! nat (c + 16)) (int j)"
      using True c j by (intro smooth_fill_inside) linarith+
    then show ?thesis unfolding sb if_P [OF True] .
  next
    case False
    then have "int j < c - 17 + 1 \<or> c + 16 \<le> int j" by linarith
    then have "smooth_fill (c - 17) (c + 16) (corr ! nat (c - 17)) (corr ! nat (c + 16))
            (c - 17 + 1) corr ! j = corr ! j"
      using c by (intro smooth_fill_outside) linarith+
    then show ?thesis unfolding sb if_not_P [OF False] .
  qed
qed

lemma smooth_loop_unfold:
  "smooth_loop 0 corr =
     smooth_boundary 3584 (smooth_boundary 2560 (smooth_boundary 1536 (smooth_boundary 512 corr)))"
proof -
  have s: "smooth_loop b x =
      (if b < 4 then smooth_loop (Suc b) (smooth_boundary (boundaries ! b) x) else x)" for b x
    by (subst smooth_loop.simps) simp
  show ?thesis
    by (simp add: s [of 0] s [of "Suc 0"] s [of "Suc (Suc 0)"] s [of "Suc (Suc (Suc 0))"]
        s [of "Suc (Suc (Suc (Suc 0)))"] boundaries_def)
qed

lemma smooth_loop_length: "length (smooth_loop 0 corr) = length corr"
  by (simp add: smooth_loop_unfold smooth_boundary_length)

lemma smooth_loop_nth:
  assumes len: "length x = 4096" and j: "j < 4096"
  shows "smooth_loop 0 x ! j =
    (if 495 < j \<and> j < 528 then smooth_entry 495 528 (x ! 495) (x ! 528) (int j)
     else if 1519 < j \<and> j < 1552 then smooth_entry 1519 1552 (x ! 1519) (x ! 1552) (int j)
     else if 2543 < j \<and> j < 2576 then smooth_entry 2543 2576 (x ! 2543) (x ! 2576) (int j)
     else if 3567 < j \<and> j < 3600 then smooth_entry 3567 3600 (x ! 3567) (x ! 3600) (int j)
     else x ! j)"
proof -
  define x1 where "x1 = smooth_boundary 512 x"
  define x2 where "x2 = smooth_boundary 1536 x1"
  define x3 where "x3 = smooth_boundary 2560 x2"
  define x4 where "x4 = smooth_boundary 3584 x3"
  have l1: "length x1 = 4096" by (simp add: x1_def smooth_boundary_length len)
  have l2: "length x2 = 4096" by (simp add: x2_def smooth_boundary_length l1)
  have l3: "length x3 = 4096" by (simp add: x3_def smooth_boundary_length l2)
  have n1: "x1 ! k = (if 495 < k \<and> k < 528
      then smooth_entry 495 528 (x ! 495) (x ! 528) (int k) else x ! k)" if "k < 4096" for k
    unfolding x1_def using that len by (subst smooth_boundary_nth) auto
  have n2: "x2 ! k = (if 1519 < k \<and> k < 1552
      then smooth_entry 1519 1552 (x1 ! 1519) (x1 ! 1552) (int k) else x1 ! k)" if "k < 4096" for k
    unfolding x2_def using that l1 by (subst smooth_boundary_nth) auto
  have n3: "x3 ! k = (if 2543 < k \<and> k < 2576
      then smooth_entry 2543 2576 (x2 ! 2543) (x2 ! 2576) (int k) else x2 ! k)" if "k < 4096" for k
    unfolding x3_def using that l2 by (subst smooth_boundary_nth) auto
  have n4: "x4 ! k = (if 3567 < k \<and> k < 3600
      then smooth_entry 3567 3600 (x3 ! 3567) (x3 ! 3600) (int k) else x3 ! k)" if "k < 4096" for k
    unfolding x4_def using that l3 by (subst smooth_boundary_nth) auto
  have "smooth_loop 0 x = x4"
    by (simp add: smooth_loop_unfold x1_def x2_def x3_def x4_def)
  then show ?thesis using j by (simp add: n1 n2 n3 n4)
qed

lemma smooth_loop_idem:
  assumes len: "length x = 4096"
  shows "smooth_loop 0 (smooth_loop 0 x) = smooth_loop 0 x"
proof (rule nth_equalityI)
  show "length (smooth_loop 0 (smooth_loop 0 x)) = length (smooth_loop 0 x)"
    by (simp add: smooth_loop_length)
next
  fix j assume "j < length (smooth_loop 0 (smooth_loop 0 x))"
  then have j: "j < 4096" by (simp add: smooth_loop_length len)
  have len': "length (smooth_loop 0 x) = 4096" by (simp add: smooth_loop_length len)
  have a: "smooth_loop 0 x ! 495 = x ! 495" "smooth_loop 0 x ! 528 = x ! 528"
     "smooth_loop 0 x ! 1519 = x ! 1519" "smooth_loop 0 x ! 1552 = x ! 1552"
     "smooth_loop 0 x ! 2543 = x ! 2543" "smooth_loop 0 x ! 2576 = x ! 2576"
     "smooth_loop 0 x ! 3567 = x ! 3567" "smooth_loop 0 x ! 3600 = x ! 3600"
    by (simp_all add: smooth_loop_nth [OF len])
  show "smooth_loop 0 (smooth_loop 0 x) ! j = smooth_loop 0 x ! j"
    by (simp add: smooth_loop_nth [OF len' j] smooth_loop_nth [OF len j] a)
qed

lemma smooth_anchors_eq: "smooth_anchors = [495, 528, 1519, 1552, 2543, 2576, 3567, 3600]"
  by (simp add: smooth_anchors_def boundaries_def radius_def)

text \<open>
  Claim C4. On a table of 4096 entries, running \<open>smooth_correction_table\<close> twice gives
  the same record as running it once, and a pass leaves the anchor entries (the codes
  whose values it reads before interpolating) as they were.
\<close>

theorem smooth_idempotent:
  assumes len: "length (correction cal_data) = 4096"
  shows "smooth_correction_table (smooth_correction_table cal_data) =
           smooth_correction_table cal_data \<and>
         map (nth (correction (smooth_correction_table cal_data))) smooth_anchors =
           map (nth (correction cal_data)) smooth_anchors"
proof
  show "smooth_correction_table (smooth_correction_table cal_data) =
        smooth_correction_table cal_data"
    by (simp add: smooth_correction_table_def smooth_loop_idem [OF len])
  show "map (nth (correction (smooth_correction_table cal_data))) smooth_anchors =
        map (nth (correction cal_data)) smooth_anchors"
    by (simp add: smooth_correction_table_def smooth_anchors_eq smooth_loop_nth [OF len])
qed

theorem smooth_idempotent_witness:
  "smooth_correction_table (smooth_correction_table cal_default) =
     smooth_correction_table cal_default \<and>
   map (nth (correction (smooth_correction_table cal_default))) smooth_anchors =
     map (nth (correction cal_default)) smooth_anchors"
  using smooth_idempotent [of cal_default] by (simp add: cal_default_def)

section \<open>Properties of the sigma-delta DAC\<close>

lemma set_bits_card: "set_bits w = card {j. j < 32 \<and> bit w j}"
proof -
  have "length (filter (bit w) [0..<32]) = card (set (filter (bit w) [0..<32]))"
    by (rule distinct_card [symmetric]) simp
  then have "set_bits w = card (set (filter (bit w) [0..<32]))"
    by (simp only: set_bits_def)
  also have "set (filter (bit w) [0..<32]) = {j. j < 32 \<and> bit w j}" by auto
  finally show ?thesis .
qed

lemma set_bits_zero: "set_bits 0 = 0"
  by (simp add: set_bits_card)

lemma set_bits_or_bit:
  assumes i: "i < 32" and clear: "\<not> bit w i"
  shows "set_bits (w OR 2 ^ i) = Suc (set_bits w)"
proof -
  have "{j. j < 32 \<and> bit (w OR 2 ^ i) j} = insert i {j. j < 32 \<and> bit w j}"
    using i by (auto simp: bit_or_iff bit_exp_iff)
  moreover have "i \<notin> {j. j < 32 \<and> bit w j}" using clear by simp
  moreover have "finite {j. j < 32 \<and> bit w j}" by simp
  ultimately show ?thesis by (simp add: set_bits_card)
qed

lemma add_overflow:
  fixes a t :: "32 word"
  shows "unat a + unat t = unat (a + t) + (if a + t < a then 2 ^ 32 else 0)"
proof -
  have "a \<le> a + t \<longleftrightarrow> unat a + unat t < 2 ^ 32"
    using no_plus_overflow_unat_size [of a t] by (simp add: word_size)
  then have "a + t < a \<longleftrightarrow> \<not> unat a + unat t < 2 ^ 32" by (simp add: not_le [symmetric])
  then show ?thesis by (simp add: unat_plus_if')
qed


lemma dac_bits_count:
  "dac_bits i t acc w = (acc', w') \<Longrightarrow> i \<le> 32 \<Longrightarrow> (\<forall>j \<ge> i. \<not> bit w j) \<Longrightarrow>
   unat acc + (32 - i) * unat t + 2 ^ 32 * set_bits w = unat acc' + 2 ^ 32 * set_bits w'"
proof (induction i t acc w rule: dac_bits.induct)
  case (1 i t acc w)
  show ?case
  proof (cases "i < 32")
    case False
    then have "dac_bits i t acc w = (acc, w)" by (subst dac_bits.simps) simp
    then show ?thesis using "1.prems" False by simp
  next
    case True
    define w1 where "w1 = (if acc + t < acc then w OR push_bit i 1 else w)"
    have step: "dac_bits i t acc w = dac_bits (i + 1) t (acc + t) w1"
      using True by (subst dac_bits.simps) (simp add: Let_def w1_def)
    have clear: "\<not> bit w i" using "1.prems" by simp
    have sb: "set_bits w1 = set_bits w + (if acc + t < acc then 1 else 0)"
      using True clear by (simp add: w1_def set_bits_or_bit)
    have clear1: "\<forall>j \<ge> i + 1. \<not> bit w1 j"
      using "1.prems" by (auto simp: w1_def bit_or_iff bit_exp_iff)
    define m where "m = 32 - (i + 1)"
    have m: "32 - i = Suc m" using True by (simp add: m_def)
    have ih: "unat (acc + t) + m * unat t + 2 ^ 32 * set_bits w1 =
          unat acc' + 2 ^ 32 * set_bits w'"
      unfolding m_def using "1.prems" True clear1 step
      by (intro "1.IH" [OF True refl refl, folded w1_def]) simp_all
    show ?thesis
    proof (cases "acc + t < acc")
      case True
      then have "unat acc + unat t = unat (acc + t) + 2 ^ 32"
        using add_overflow [of acc t] by simp
      moreover have "set_bits w1 = Suc (set_bits w)" using True sb by simp
      ultimately show ?thesis using ih by (simp add: m)
    next
      case False
      then have "unat acc + unat t = unat (acc + t)"
        using add_overflow [of acc t] by simp
      moreover have "set_bits w1 = set_bits w" using False sb by simp
      ultimately show ?thesis using ih by (simp add: m)
    qed
  qed
qed

lemma dac_feed_one_full: "dac_feed_one True s = (False, s)"
  by (simp add: dac_feed_one_def)

lemma dac_feed_one_count:
  assumes "dac_feed_one False s = (ok, s')"
  shows "ok \<and> sd_target s' = sd_target s \<and> (\<exists>w. fifo s' = fifo s @ [w] \<and>
     unat (sd_accumulator s) + 32 * unat (sd_target s) =
     unat (sd_accumulator s') + 2 ^ 32 * set_bits w)"
proof -
  obtain acc w where b: "dac_bits 0 (sd_target s) (sd_accumulator s) 0 = (acc, w)"
    by (cases "dac_bits 0 (sd_target s) (sd_accumulator s) 0")
  have "unat (sd_accumulator s) + (32 - 0) * unat (sd_target s) + 2 ^ 32 * set_bits 0 =
        unat acc + 2 ^ 32 * set_bits w"
    by (rule dac_bits_count [OF b]) simp_all
  then show ?thesis using assms b by (auto simp: dac_feed_one_def set_bits_zero)
qed

lemma dac_feed_calls_count:
  "\<exists>ws. fifo (dac_feed_calls fs s) = fifo s @ ws \<and> length ws = length (filter Not fs) \<and>
     sd_target (dac_feed_calls fs s) = sd_target s \<and>
     unat (sd_accumulator s) + 32 * length ws * unat (sd_target s) =
     unat (sd_accumulator (dac_feed_calls fs s)) + 2 ^ 32 * set_bits_total ws"
proof (induction fs arbitrary: s)
  case Nil
  show ?case by (simp add: set_bits_total_def)
next
  case (Cons f fs)
  show ?case
  proof (cases f)
    case True
    then show ?thesis using Cons.IH [of s] by (simp add: dac_feed_one_full)
  next
    case False
    obtain ok s' where f1: "dac_feed_one False s = (ok, s')" by (cases "dac_feed_one False s")
    from dac_feed_one_count [OF f1] obtain w where
      t: "sd_target s' = sd_target s" and w: "fifo s' = fifo s @ [w]" and
      c: "unat (sd_accumulator s) + 32 * unat (sd_target s) =
          unat (sd_accumulator s') + 2 ^ 32 * set_bits w" by blast
    from Cons.IH [of s'] obtain ws where
      ws: "fifo (dac_feed_calls fs s') = fifo s' @ ws" "length ws = length (filter Not fs)"
        "sd_target (dac_feed_calls fs s') = sd_target s'" and
      c': "unat (sd_accumulator s') + 32 * length ws * unat (sd_target s') =
          unat (sd_accumulator (dac_feed_calls fs s')) + 2 ^ 32 * set_bits_total ws" by blast
    have r: "dac_feed_calls (f # fs) s = dac_feed_calls fs s'" using False f1 by simp
    have "fifo (dac_feed_calls (f # fs) s) = fifo s @ (w # ws)"
      unfolding r by (simp add: ws w)
    moreover have "length (w # ws) = length (filter Not (f # fs))" using False ws by simp
    moreover have "sd_target (dac_feed_calls (f # fs) s) = sd_target s"
      unfolding r by (simp add: ws t)
    moreover have "unat (sd_accumulator s) + 32 * length (w # ws) * unat (sd_target s) =
        unat (sd_accumulator (dac_feed_calls (f # fs) s)) + 2 ^ 32 * set_bits_total (w # ws)"
      unfolding r using c c' by (simp add: t set_bits_total_def algebra_simps)
    ultimately show ?thesis by blast
  qed
qed


lemma dac_set_level_target:
  "unat (sd_target (dac_set_level level s)) = unat (level AND 0xFFF) * 2 ^ 20"
proof -
  have "level AND 0xFFF \<le> 0xFFF" by (rule word_and_le1)
  then have "unat (level AND 0xFFF) \<le> unat (0xFFF :: 16 word)" by (simp only: word_le_nat_alt)
  then have b: "unat (level AND 0xFFF) < 2 ^ 12" by simp
  have "unat (level AND 0xFFF) < 2 ^ 32" using b by simp
  then have "take_bit 32 (unat (level AND 0xFFF)) = unat (level AND 0xFFF)"
    by (simp only: take_bit_nat_eq_self)
  then have u: "unat (ucast (level AND 0xFFF) :: 32 word) = unat (level AND 0xFFF)"
    by (simp add: unsigned_ucast_eq)
  have "unat (level AND 0xFFF) * 2 ^ 20 < 2 ^ 12 * 2 ^ 20" using b by simp
  then have "push_bit 20 (unat (level AND 0xFFF)) < 2 ^ 32" by (simp add: push_bit_eq_mult)
  then have tb: "take_bit 32 (push_bit 20 (unat (level AND 0xFFF))) =
      push_bit 20 (unat (level AND 0xFFF))" by (simp only: take_bit_nat_eq_self)
  have "unat (push_bit 20 (ucast (level AND 0xFFF)) :: 32 word) =
      take_bit LENGTH(32) (push_bit 20 (unat (ucast (level AND 0xFFF) :: 32 word)))"
    by (rule unsigned_push_bit_eq)
  also have "\<dots> = push_bit 20 (unat (level AND 0xFFF))"
    unfolding u using tb by simp
  also have "\<dots> = unat (level AND 0xFFF) * 2 ^ 20" by (rule push_bit_eq_mult)
  finally have "unat (push_bit 20 (ucast (level AND 0xFFF)) :: 32 word) =
      unat (level AND 0xFFF) * 2 ^ 20" .
  moreover have "sd_target (dac_set_level level s) = push_bit 20 (ucast (level AND 0xFFF))"
    by (simp add: dac_set_level_def)
  ultimately show ?thesis by (simp only:)
qed

lemma modulator_count:
  "(let T = unat (level AND 0xFFF);
        ws = drop (length (fifo s)) (fifo (dac_feed_calls calls (dac_set_level level s)))
    in length ws = length (filter Not calls) \<and>
       \<bar>int (4096 * set_bits_total ws) - int (32 * length ws * T)\<bar> < 4096)"
proof -
  define s0 where "s0 = dac_set_level level s"
  define T where "T = unat (level AND 0xFFF)"
  obtain ws where f: "fifo (dac_feed_calls calls s0) = fifo s0 @ ws"
    and l: "length ws = length (filter Not calls)"
    and c: "unat (sd_accumulator s0) + 32 * length ws * unat (sd_target s0) =
       unat (sd_accumulator (dac_feed_calls calls s0)) + 2 ^ 32 * set_bits_total ws"
    using dac_feed_calls_count [of calls s0] by blast
  have t: "unat (sd_target s0) = T * 2 ^ 20"
    by (simp add: s0_def T_def dac_set_level_target)
  have "fifo s0 = fifo s" by (simp add: s0_def dac_set_level_def)
  then have d: "drop (length (fifo s)) (fifo (dac_feed_calls calls s0)) = ws"
    by (simp add: f)
  have a0: "unat (sd_accumulator s0) < 2 ^ 32"
    using unsigned_less [of "sd_accumulator s0"] by simp
  have a1: "unat (sd_accumulator (dac_feed_calls calls s0)) < 2 ^ 32"
    using unsigned_less [of "sd_accumulator (dac_feed_calls calls s0)"] by simp
  define X where "X = 32 * length ws * T"
  define Y where "Y = 4096 * set_bits_total ws"
  have "unat (sd_accumulator s0) + 1048576 * X =
        unat (sd_accumulator (dac_feed_calls calls s0)) + 1048576 * Y"
    using c by (simp add: t X_def Y_def)
  then have "\<bar>int Y - int X\<bar> < 4096" using a0 a1 by simp
  then show ?thesis
    unfolding Let_def T_def [symmetric] s0_def [symmetric] d X_def [symmetric] Y_def [symmetric]
    using l by simp
qed

lemma dac_level_12bit: "level < 4096 \<Longrightarrow> level AND 0xFFF = level" for level :: "16 word"
proof -
  assume "level < 4096"
  then have "level < 2 ^ 12" by simp
  then have "level AND mask 12 = level" by (rule less_mask_eq)
  then show ?thesis by (simp add: mask_eq_exp_minus_1)
qed

text \<open>
  Claim C3. Set a 12-bit level \<open>T\<close> with \<open>dac_set_level\<close>, from any accumulator value,
  and call \<open>dac_feed_one\<close> any number of times; let \<open>ws\<close> be the words it pushed (one
  for each call that found room in the FIFO). The number of set bits in \<open>ws\<close> differs
  from \<open>32 * W * T / 4096\<close> by less than 1, whatever the number \<open>W\<close> of words:
  \<open>|4096 * bits - 32 * W * T| < 4096\<close>. So the fraction of set bits is within
  \<open>1 / (32 * W)\<close> of \<open>T / 4096\<close>.
\<close>

theorem modulator_fidelity:
  assumes "level < 4096"
  shows "(let T = unat level;
              ws = drop (length (fifo s)) (fifo (dac_feed_calls calls (dac_set_level level s)))
          in length ws = length (filter Not calls) \<and>
             \<bar>int (4096 * set_bits_total ws) - int (32 * length ws * T)\<bar> < 4096)"
  using modulator_count [of level s calls] unfolding dac_level_12bit [OF assms] .

theorem modulator_fidelity_witness:
  "(let ws = fifo (dac_feed_calls [False, True, False, False] (dac_set_level 1000 dac_start))
    in length ws = 3 \<and> \<bar>int (4096 * set_bits_total ws) - 96000\<bar> < 4096)"
proof -
  define ws where
    "ws = fifo (dac_feed_calls [False, True, False, False] (dac_set_level 1000 dac_start))"
  have f: "length (fifo dac_start) = 0" by (simp add: dac_start_def)
  have u: "unat (1000 :: 16 word) = 1000" by simp
  have n: "length (filter Not [False, True, False, False]) = 3" by simp
  have k: "(1000 :: 16 word) < 4096" by simp
  have c: "length ws = 3 \<and>
      \<bar>int (4096 * set_bits_total ws) - int (32 * length ws * 1000)\<bar> < 4096"
    using modulator_fidelity [OF k, of dac_start "[False, True, False, False]"]
    unfolding Let_def f u n drop_0 ws_def [symmetric] .
  have l: "length ws = 3" using c by (rule conjunct1)
  have b: "\<bar>int (4096 * set_bits_total ws) - int (32 * length ws * 1000)\<bar> < 4096"
    using c by (rule conjunct2)
  have "\<bar>int (4096 * set_bits_total ws) - 96000\<bar> < 4096"
    using b unfolding l by simp
  with l show ?thesis unfolding Let_def ws_def by simp
qed

section \<open>Properties of the histogram collection\<close>

lemma kept_add: "kept adc a (n + m) = kept adc a n + kept adc (a + n) m"
proof -
  have l: "[a..<a + n + m] = [a..<a + n] @ [a + n..<a + n + m]"
    by (rule upt_add_eq_append) simp
  have e: "a + (n + m) = a + n + m" by simp
  show ?thesis unfolding kept_def e l by simp
qed

lemma kept_le: "kept adc a n \<le> n"
proof -
  have "kept adc a n \<le> length [a..<a + n]" unfolding kept_def by (rule length_filter_le)
  then show ?thesis by simp
qed

lemma kept_discarded: "kept adc a n + discarded adc a n = n"
  using sum_length_filter_compl [of "\<lambda>k. adc k < 4096" "[a..<a + n]"]
  by (simp add: kept_def discarded_def)

lemma kept_one: "kept adc a (Suc 0) = (if adc a < 4096 then 1 else 0)"
  by (simp add: kept_def)

lemma hist_total_increment:
  assumes c: "c < length h" and room: "hist_total h < 2 ^ 32 - 1"
  shows "hist_total (h[c := h ! c + 1]) = hist_total h + 1"
proof -
  have "unat (h ! c) \<in> set (map unat h)" using c by simp
  then have le: "unat (h ! c) \<le> hist_total h"
    unfolding hist_total_def by (intro member_le_sum_list) simp_all
  then have "unat (h ! c) + unat (1 :: 32 word) < 2 ^ LENGTH(32)" using room by simp
  then have "unat (h ! c + 1) = unat (h ! c) + unat (1 :: 32 word)"
    by (rule unat_add_lem [THEN iffD1])
  then have u: "unat (h ! c + 1) = unat (h ! c) + 1" by simp
  have "hist_total (h[c := h ! c + 1]) = sum_list ((map unat h)[c := unat (h ! c + 1)])"
    by (simp add: hist_total_def map_update)
  also have "\<dots> = sum_list (map unat h) + unat (h ! c + 1) - map unat h ! c"
    using c by (simp add: sum_list_update)
  also have "\<dots> = hist_total h + 1" using c u by (simp add: hist_total_def)
  finally show ?thesis .
qed

lemma collected_refl: "length (histogram st) = 4096 \<Longrightarrow> collected adc 0 st st"
  by (simp add: collected_def kept_def)

lemma collected_trans:
  "collected adc n st st' \<Longrightarrow> collected adc m st' st'' \<Longrightarrow> collected adc (n + m) st st''"
  by (simp add: collected_def kept_add)

lemma collected_room:
  "collected adc n st st' \<Longrightarrow> hist_total (histogram st') \<le> hist_total (histogram st) + n"
  using kept_le [of adc "adc_reads st" n] by (simp add: collected_def)

lemma take_sample_collected:
  assumes len: "length (histogram st) = 4096" and room: "hist_total (histogram st) + 1 < 2 ^ 32"
  shows "collected adc 1 st (take_sample adc st)"
proof (cases "adc (adc_reads st) < 4096")
  case True
  then have "unat (adc (adc_reads st)) < unat (4096 :: 16 word)" by (simp only: word_less_nat_alt)
  then have c: "unat (adc (adc_reads st)) < length (histogram st)" using len by simp
  have "hist_total ((histogram st)[unat (adc (adc_reads st)) :=
          histogram st ! unat (adc (adc_reads st)) + 1]) = hist_total (histogram st) + 1"
    using c room by (intro hist_total_increment) simp_all
  then show ?thesis using True len
    by (simp add: collected_def take_sample_def Let_def kept_one)
next
  case False
  then show ?thesis using len
    by (simp add: collected_def take_sample_def Let_def kept_one)
qed

lemma sample_loop_collected:
  "length (histogram st) = 4096 \<Longrightarrow> hist_total (histogram st) + nat (S - s) < 2 ^ 32 \<Longrightarrow>
   collected adc (nat (S - s)) st (sample_loop adc S s st)"
proof (induction adc S s st rule: sample_loop.induct)
  case (1 adc S s st)
  show ?case
  proof (cases "s < S")
    case False
    then have "sample_loop adc S s st = st" by (subst sample_loop.simps) simp
    moreover have "nat (S - s) = 0" using False by simp
    ultimately show ?thesis using "1.prems"(1) by (simp only: collected_refl)
  next
    case True
    define m where "m = nat (S - (s + 1))"
    have n: "nat (S - s) = 1 + m" using True by (simp add: m_def)
    have room: "hist_total (histogram st) + (1 + m) < 2 ^ 32"
      using "1.prems"(2) by (simp only: n)
    have one: "collected adc 1 st (take_sample adc st)"
      using "1.prems"(1) room by (intro take_sample_collected) linarith+
    have "hist_total (histogram (take_sample adc st)) \<le> hist_total (histogram st) + 1"
      using collected_room [OF one] .
    then have room': "hist_total (histogram (take_sample adc st)) + m < 2 ^ 32"
      using room by linarith
    have len': "length (histogram (take_sample adc st)) = 4096"
      using one by (simp only: collected_def)
    have "collected adc m (take_sample adc st)
        (sample_loop adc S (s + 1) (take_sample adc st))"
      unfolding m_def using len' room' [unfolded m_def] by (rule "1.IH" [OF True])
    with one have "collected adc (1 + m) st
        (sample_loop adc S (s + 1) (take_sample adc st))"
      by (rule collected_trans)
    moreover have "sample_loop adc S s st = sample_loop adc S (s + 1) (take_sample adc st)"
      using True by (subst sample_loop.simps) simp
    ultimately show ?thesis by (simp only: n)
  qed
qed


lemma level_loop_collected:
  "length (histogram st) = 4096 \<Longrightarrow>
   hist_total (histogram st) +
     (if ascending then nat (4096 - level) else nat (level + 1)) * nat S < 2 ^ 32 \<Longrightarrow>
   collected adc ((if ascending then nat (4096 - level) else nat (level + 1)) * nat S) st
     (level_loop adc S ascending level st)"
proof (induction adc S ascending level st rule: level_loop.induct)
  case (1 adc S ascending level st)
  define L where "L = (if ascending then nat (4096 - level) else nat (level + 1))"
  define level' where "level' = level + (if ascending then 1 else - 1)"
  define L' where "L' = (if ascending then nat (4096 - level') else nat (level' + 1))"
  note prems = "1.prems" [folded L_def]
  show ?case unfolding L_def [symmetric]
  proof (cases "if ascending then level \<le> 4095 else 0 \<le> level")
    case False
    then have "level_loop adc S ascending level st = st" by (subst level_loop.simps) simp
    moreover have "L = 0" using False by (simp add: L_def split: if_splits)
    ultimately show "collected adc (L * nat S) st (level_loop adc S ascending level st)"
      using prems(1) by (simp add: collected_refl)
  next
    case True
    have L: "L = 1 + L'" using True by (simp add: L_def L'_def level'_def split: if_splits)
    define st1 where "st1 = sample_loop adc S 0 st"
    have room: "hist_total (histogram st) + (nat S + L' * nat S) < 2 ^ 32"
      using prems(2) by (simp add: L)
    have "collected adc (nat (S - 0)) st (sample_loop adc S 0 st)"
      using prems(1) room by (intro sample_loop_collected) simp_all
    then have one: "collected adc (nat S) st st1" by (simp add: st1_def)
    have len1: "length (histogram st1) = 4096" using one by (simp only: collected_def)
    have "hist_total (histogram st1) \<le> hist_total (histogram st) + nat S"
      using collected_room [OF one] .
    then have room1: "hist_total (histogram st1) + L' * nat S < 2 ^ 32" using room by linarith
    have "collected adc (L' * nat S) st1 (level_loop adc S ascending level' st1)"
      unfolding L'_def level'_def st1_def
      using len1 [unfolded st1_def] room1 [unfolded L'_def level'_def st1_def]
      by (rule "1.IH" [OF True])
    with one have "collected adc (nat S + L' * nat S) st (level_loop adc S ascending level' st1)"
      by (rule collected_trans)
    moreover have "level_loop adc S ascending level st = level_loop adc S ascending level' st1"
      using True by (subst level_loop.simps) (simp add: level'_def st1_def)
    moreover have "L * nat S = nat S + L' * nat S" by (simp add: L)
    ultimately show "collected adc (L * nat S) st (level_loop adc S ascending level st)"
      by (simp only:)
  qed
qed

lemma sweep_collected:
  assumes "length (histogram st) = 4096"
    and "hist_total (histogram st) + 4096 * nat S < 2 ^ 32"
  shows "collected adc (4096 * nat S) st (collect_histogram_sweep adc S ascending st)"
proof (cases ascending)
  case True
  have "collected adc ((if True then nat (4096 - 0) else nat (0 + 1)) * nat S) st
     (level_loop adc S True 0 st)"
    using assms by (intro level_loop_collected) simp_all
  then show ?thesis using True by (simp add: collect_histogram_sweep_def)
next
  case False
  have "collected adc ((if False then nat (4096 - 4095) else nat (4095 + 1)) * nat S) st
     (level_loop adc S False 4095 st)"
    using assms by (intro level_loop_collected) simp_all
  then show ?thesis using False by (simp add: collect_histogram_sweep_def)
qed

lemma sweep_loop_collected:
  "length (histogram st) = 4096 \<Longrightarrow>
   hist_total (histogram st) + nat (NUM_SWEEPS - sweep) * (4096 * nat S) < 2 ^ 32 \<Longrightarrow>
   collected adc (nat (NUM_SWEEPS - sweep) * (4096 * nat S)) st (sweep_loop adc S sweep st)"
proof (induction adc S sweep st rule: sweep_loop.induct)
  case (1 adc S sweep st)
  show ?case
  proof (cases "sweep < NUM_SWEEPS")
    case False
    then have "sweep_loop adc S sweep st = st" by (subst sweep_loop.simps) simp
    moreover have "nat (NUM_SWEEPS - sweep) = 0" using False by simp
    ultimately show ?thesis using "1.prems"(1) by (simp add: collected_refl)
  next
    case True
    define R where "R = nat (NUM_SWEEPS - (sweep + 1))"
    define st1 where "st1 = collect_histogram_sweep adc S (sweep mod 2 = 0) st"
    have n: "nat (NUM_SWEEPS - sweep) = 1 + R" using True by (simp add: R_def)
    have room: "hist_total (histogram st) + (4096 * nat S + R * (4096 * nat S)) < 2 ^ 32"
      using "1.prems"(2) by (simp add: n)
    have one: "collected adc (4096 * nat S) st st1"
      unfolding st1_def using "1.prems"(1) room by (intro sweep_collected) linarith+
    have len1: "length (histogram st1) = 4096" using one by (simp only: collected_def)
    have "hist_total (histogram st1) \<le> hist_total (histogram st) + 4096 * nat S"
      using collected_room [OF one] .
    then have room1: "hist_total (histogram st1) + R * (4096 * nat S) < 2 ^ 32"
      using room by linarith
    have "collected adc (R * (4096 * nat S)) st1 (sweep_loop adc S (sweep + 1) st1)"
      unfolding R_def st1_def
      using len1 [unfolded st1_def] room1 [unfolded R_def st1_def]
      by (rule "1.IH" [OF True])
    with one have "collected adc (4096 * nat S + R * (4096 * nat S)) st
        (sweep_loop adc S (sweep + 1) st1)"
      by (rule collected_trans)
    moreover have "sweep_loop adc S sweep st = sweep_loop adc S (sweep + 1) st1"
      using True by (subst sweep_loop.simps) (simp add: st1_def)
    moreover have "nat (NUM_SWEEPS - sweep) * (4096 * nat S) =
        4096 * nat S + R * (4096 * nat S)" by (simp add: n)
    ultimately show ?thesis by (simp only:)
  qed
qed

lemma hist_total_zero: "hist_total (replicate n 0) = 0"
  by (simp add: hist_total_def)

lemma collect_histogram_collected:
  assumes "NUM_SWEEPS * 4096 * S < 2 ^ 32"
  shows "collected adc (nat (NUM_SWEEPS * 4096 * S)) (st\<lparr>histogram := replicate 4096 0\<rparr>)
           (collect_histogram adc S st)"
proof -
  have "nat (16384 * S) = 16384 * nat S" by (simp add: nat_mult_distrib)
  then have n: "nat (NUM_SWEEPS * 4096 * S) = 16384 * nat S" by (simp add: NUM_SWEEPS_def)
  have r: "nat (NUM_SWEEPS - 0) * (4096 * nat S) = 16384 * nat S" by (simp add: NUM_SWEEPS_def)
  have "16384 * S < 4294967296" using assms by (simp add: NUM_SWEEPS_def)
  then have "16384 * nat S < (4294967296 :: nat)" by linarith
  then have room: "hist_total (histogram (st\<lparr>histogram := replicate 4096 0\<rparr>)) +
      nat (NUM_SWEEPS - 0) * (4096 * nat S) < 2 ^ 32"
    unfolding r by (simp add: hist_total_zero)
  have len: "length (histogram (st\<lparr>histogram := replicate 4096 0\<rparr>)) = 4096" by simp
  have "collected adc (nat (NUM_SWEEPS - 0) * (4096 * nat S))
      (st\<lparr>histogram := replicate 4096 0\<rparr>)
      (sweep_loop adc S 0 (st\<lparr>histogram := replicate 4096 0\<rparr>))"
    using len room by (rule sweep_loop_collected)
  then show ?thesis by (simp only: n r collect_histogram_def)
qed

text \<open>
  Claim C9. \<open>collect_histogram\<close> starts from zeroed counters whatever the histogram held
  before, reads \<open>NUM_SWEEPS * 4096 * samples_per_level\<close> samples, and the counters then
  add up to that number minus the number of samples whose code was outside 0..4095. This
  holds for every number of samples per level that cannot overflow a 32-bit counter, the
  documented 128 among them.
\<close>

theorem histogram_conservation:
  assumes "NUM_SWEEPS * 4096 * S < 2 ^ 32"
  shows "collect_histogram adc S (st\<lparr>histogram := h\<rparr>) = collect_histogram adc S st \<and>
         length (histogram (collect_histogram adc S st)) = 4096 \<and>
         adc_reads (collect_histogram adc S st) = adc_reads st + nat (NUM_SWEEPS * 4096 * S) \<and>
         hist_total (histogram (collect_histogram adc S st)) +
           discarded adc (adc_reads st) (nat (NUM_SWEEPS * 4096 * S)) =
           nat (NUM_SWEEPS * 4096 * S)"
proof -
  have c: "collected adc (nat (NUM_SWEEPS * 4096 * S)) (st\<lparr>histogram := replicate 4096 0\<rparr>)
           (collect_histogram adc S st)"
    using assms by (rule collect_histogram_collected)
  have "collect_histogram adc S (st\<lparr>histogram := h\<rparr>) = collect_histogram adc S st"
    by (simp add: collect_histogram_def)
  moreover have "hist_total (histogram (collect_histogram adc S st)) =
      kept adc (adc_reads st) (nat (NUM_SWEEPS * 4096 * S))"
    using c by (simp add: collected_def hist_total_zero)
  ultimately show ?thesis
    using c kept_discarded [of adc "adc_reads st" "nat (NUM_SWEEPS * 4096 * S)"]
    by (simp add: collected_def)
qed

theorem histogram_conservation_witness:
  "collect_histogram adc_ramp 128 (collector_start\<lparr>histogram := []\<rparr>) =
     collect_histogram adc_ramp 128 collector_start \<and>
   length (histogram (collect_histogram adc_ramp 128 collector_start)) = 4096 \<and>
   adc_reads (collect_histogram adc_ramp 128 collector_start) = 2097152 \<and>
   hist_total (histogram (collect_histogram adc_ramp 128 collector_start)) +
     discarded adc_ramp 0 2097152 = 2097152"
  using histogram_conservation [where S = 128 and adc = adc_ramp and st = collector_start
      and h = "[]"]
  by (simp add: NUM_SWEEPS_def collector_start_def)

section \<open>Properties of the persistence routines\<close>

lemma join16: "ucast (ucast w :: byte) OR push_bit 8 (ucast (ucast (drop_bit 8 w) :: byte)) = w"
  for w :: "16 word"
  by (rule bit_eqI) (auto simp: bit_simps)

lemma join32:
  "ucast (ucast w :: byte) OR push_bit 8 (ucast (ucast (drop_bit 8 w) :: byte)) OR
   push_bit 16 (ucast (ucast (drop_bit 16 w) :: byte)) OR
   push_bit 24 (ucast (ucast (drop_bit 24 w) :: byte)) = w" (is "?l = w")
  for w :: "32 word"
proof (rule bit_eqI)
  fix n :: nat
  consider "n < 8" | "8 \<le> n" "n < 16" | "16 \<le> n" "n < 24" | "24 \<le> n" by linarith
  then show "bit ?l n = bit w n"
  proof cases
    case 1
    then show ?thesis by (auto simp: bit_simps)
  next
    case 2
    then have "8 + (n - 8) = n" by simp
    with 2 show ?thesis by (auto simp: bit_simps)
  next
    case 3
    then have "16 + (n - 16) = n" by simp
    with 3 show ?thesis by (auto simp: bit_simps)
  next
    case 4
    then have "24 + (n - 24) = n" by simp
    with 4 show ?thesis by (auto simp: bit_simps dest: bit_imp_le_length)
  qed
qed

lemma rd16_le16: "rd16 (pre @ le16 w @ post) (length pre) = w"
  by (simp add: rd16_def le16_def nth_append join16)

lemma rd32_le32: "rd32 (pre @ le32 w @ post) (length pre) = w"
  by (simp add: rd32_def le32_def nth_append join32)

lemma length_le16: "length (le16 w) = 2"
  by (simp add: le16_def)

lemma length_le32: "length (le32 w) = 4"
  by (simp add: le32_def)

lemma length_concat_le16: "length (concat (map le16 xs)) = 2 * length xs"
  by (induction xs) (simp_all add: length_le16)

lemma length_concat_le32: "length (concat (map le32 xs)) = 4 * length xs"
  by (induction xs) (simp_all add: length_le32)

lemma concat_le16_split:
  "i < length xs \<Longrightarrow>
   concat (map le16 xs) = concat (map le16 (take i xs)) @ le16 (xs ! i) @ concat (map le16 (drop (Suc i) xs))"
proof -
  assume "i < length xs"
  then have "xs = take i xs @ xs ! i # drop (Suc i) xs" by (rule id_take_nth_drop)
  then have "concat (map le16 xs) = concat (map le16 (take i xs @ xs ! i # drop (Suc i) xs))"
    by (rule arg_cong)
  then show ?thesis by simp
qed

lemma rd16_concat:
  assumes i: "i < length xs"
  shows "rd16 (pre @ concat (map le16 xs) @ post) (length pre + 2 * i) = xs ! i"
proof -
  define p where "p = pre @ concat (map le16 (take i xs))"
  have lp: "length p = length pre + 2 * i"
    using i by (simp add: p_def length_concat_le16)
  have e: "pre @ concat (map le16 xs) @ post =
        p @ le16 (xs ! i) @ (concat (map le16 (drop (Suc i) xs)) @ post)"
    unfolding p_def by (subst concat_le16_split [OF i]) simp
  show ?thesis unfolding e lp [symmetric] by (rule rd16_le16)
qed

lemma length_cal_bytes: "length (cal_bytes c) = 8 + 2 * length (correction c)"
  by (simp add: cal_bytes_def length_le32 length_le16 length_concat_le16)

lemma cal_bytes_magic: "rd32 (cal_bytes c @ post) 0 = magic c"
  using rd32_le32 [of "[]" "magic c"] by (simp add: cal_bytes_def)

lemma cal_bytes_correction:
  "i < length (correction c) \<Longrightarrow> rd16 (cal_bytes c @ post) (4 + 2 * i) = correction c ! i"
  using rd16_concat [of i "correction c" "le32 (magic c)"]
  by (simp add: cal_bytes_def length_le32)

lemma cal_bytes_adc_min:
  "length (correction c) = 4096 \<Longrightarrow> rd16 (cal_bytes c @ post) 8196 = adc_min c"
  using rd16_le16 [of "le32 (magic c) @ concat (map le16 (correction c))" "adc_min c"]
  by (simp add: cal_bytes_def length_le32 length_concat_le16)

lemma cal_bytes_adc_max:
  "length (correction c) = 4096 \<Longrightarrow> rd16 (cal_bytes c @ post) 8198 = adc_max c"
  using rd16_le16 [of "le32 (magic c) @ concat (map le16 (correction c)) @ le16 (adc_min c)"
      "adc_max c" post]
  by (simp add: cal_bytes_def length_le32 length_le16 length_concat_le16)

lemma cal_of_bytes_cal_bytes:
  assumes len: "length (correction c) = 4096"
  shows "cal_of_bytes (cal_bytes c @ post) = c"
proof -
  have "map (\<lambda>i. rd16 (cal_bytes c @ post) (4 + 2 * i)) [0..<4096] = correction c"
    using len by (intro nth_equalityI) (simp_all add: cal_bytes_correction)
  then show ?thesis
    by (simp add: cal_of_bytes_def cal_bytes_magic cal_bytes_adc_min [OF len]
        cal_bytes_adc_max [OF len])
qed


lemma file_read_fst: "fst (file_read content pos n buffer) = min n (length content - pos)"
  by (simp add: file_read_def Let_def min.commute)

lemma file_read_full:
  "CAL_SIZE \<le> length content \<Longrightarrow>
   file_read content 0 CAL_SIZE buffer = (CAL_SIZE, take CAL_SIZE content @ drop CAL_SIZE buffer)"
  by (simp add: file_read_def Let_def min_def)

lemma save_calibration_bin:
  assumes "begin_ok fs \<or> begin_ok_after_format fs" and "open_w_ok fs ''/adc_cal.bin''"
  shows "begin_ok (save_calibration hist cal_data fs)"
    and "files (save_calibration hist cal_data fs) ''/adc_cal.bin'' = Some (cal_bytes cal_data)"
  using assms by (auto simp: save_calibration_def Let_def)

lemma load_calibration_read:
  assumes "begin_ok fs" and "files fs ''/adc_cal.bin'' = Some content"
  shows "load_calibration cal_data fs =
     (min CAL_SIZE (length content) = CAL_SIZE \<and>
        magic (cal_of_bytes (take CAL_SIZE content @
          drop (min CAL_SIZE (length content)) (cal_bytes cal_data))) = CAL_MAGIC,
      cal_of_bytes (take CAL_SIZE content @
          drop (min CAL_SIZE (length content)) (cal_bytes cal_data)))"
  using assms by (simp add: load_calibration_def file_read_def Let_def min.commute)

text \<open>
  Claim C8. On a store that mounts (at once or after the format) and opens the binary
  file for writing, \<open>save_calibration\<close> writes the bytes of the record, and
  \<open>load_calibration\<close> then leaves in \<open>cal_data\<close> the record that was saved, whatever
  \<open>cal_data\<close> held before: magic, correction table and range are the same, byte for
  byte. The load reports success exactly when the saved magic is \<open>0xCA11B8ED\<close>.
\<close>

theorem save_load_roundtrip:
  assumes len: "length (correction cal_data) = 4096"
    and mount: "begin_ok fs \<or> begin_ok_after_format fs"
    and bin: "open_w_ok fs ''/adc_cal.bin''"
  shows "files (save_calibration hist cal_data fs) ''/adc_cal.bin'' = Some (cal_bytes cal_data) \<and>
         snd (load_calibration prior (save_calibration hist cal_data fs)) = cal_data \<and>
         cal_bytes (snd (load_calibration prior (save_calibration hist cal_data fs))) =
           cal_bytes cal_data \<and>
         fst (load_calibration prior (save_calibration hist cal_data fs)) =
           (magic cal_data = 0xCA11B8ED)"
proof -
  define fs' where "fs' = save_calibration hist cal_data fs"
  have b: "begin_ok fs'" and f: "files fs' ''/adc_cal.bin'' = Some (cal_bytes cal_data)"
    unfolding fs'_def using mount bin by (rule save_calibration_bin)+
  have l: "length (cal_bytes cal_data) = 8200" by (simp add: length_cal_bytes len)
  have "load_calibration prior fs' = (magic cal_data = CAL_MAGIC, cal_data)"
    by (simp add: load_calibration_read [OF b f] l CAL_SIZE_def cal_of_bytes_cal_bytes [OF len])
  then show ?thesis using f by (simp add: fs'_def CAL_MAGIC_def)
qed

theorem save_load_roundtrip_witness:
  "files (save_calibration (replicate 4096 0) (cal_default\<lparr>magic := CAL_MAGIC\<rparr>) fs_blank)
     ''/adc_cal.bin'' = Some (cal_bytes (cal_default\<lparr>magic := CAL_MAGIC\<rparr>)) \<and>
   snd (load_calibration cal_default
     (save_calibration (replicate 4096 0) (cal_default\<lparr>magic := CAL_MAGIC\<rparr>) fs_blank)) =
     cal_default\<lparr>magic := CAL_MAGIC\<rparr> \<and>
   fst (load_calibration cal_default
     (save_calibration (replicate 4096 0) (cal_default\<lparr>magic := CAL_MAGIC\<rparr>) fs_blank))"
  using save_load_roundtrip [of "cal_default\<lparr>magic := CAL_MAGIC\<rparr>" fs_blank
      "replicate 4096 0" cal_default]
  by (simp add: cal_default_def fs_blank_def CAL_MAGIC_def)

lemma rd32_take:
  "k + 4 \<le> n \<Longrightarrow> k + 4 \<le> length content \<Longrightarrow> rd32 (take n content @ rest) k = rd32 content k"
  by (simp add: rd32_def nth_append)

lemma rd32_drop:
  "pos + 4 \<le> length content \<Longrightarrow> rd32 (drop pos content) 0 = rd32 content pos"
  by (simp add: rd32_def)

lemma load_calibration_result:
  "fst (load_calibration cal_data fs) \<longleftrightarrow>
      begin_ok fs \<and>
      (\<exists>content. files fs ''/adc_cal.bin'' = Some content \<and>
         fst (file_read content 0 CAL_SIZE (cal_bytes cal_data)) = CAL_SIZE \<and>
         rd32 content 0 = 0xCA11B8ED)"
proof (cases "begin_ok fs")
  case False
  then show ?thesis by (simp add: load_calibration_def)
next
  case b: True
  show ?thesis
  proof (cases "files fs ''/adc_cal.bin''")
    case None
    then show ?thesis using b by (simp add: load_calibration_def)
  next
    case (Some content)
    have n: "fst (file_read content 0 CAL_SIZE (cal_bytes cal_data)) = min CAL_SIZE (length content)"
      by (simp add: file_read_fst)
    show ?thesis
    proof (cases "CAL_SIZE \<le> length content")
      case False
      then show ?thesis using b Some n
        by (simp add: load_calibration_read [OF b Some])
    next
      case True
      then have "rd32 (take CAL_SIZE content @
          drop (min CAL_SIZE (length content)) (cal_bytes cal_data)) 0 = rd32 content 0"
        by (intro rd32_take) (simp_all add: CAL_SIZE_def)
      then show ?thesis using b Some n True
        by (simp add: load_calibration_read [OF b Some] cal_of_bytes_def CAL_MAGIC_def)
    qed
  qed
qed

lemma load_calibration_from_file_result:
  "fst (load_calibration_from_file hist cal_data fs) \<longleftrightarrow>
      begin_ok fs \<and>
      (\<exists>content. files fs ''/histogram.bin'' = Some content \<and>
         fst (file_read content 0 HIST_SIZE (hist_bytes hist)) = HIST_SIZE \<and>
         fst (file_read content HIST_SIZE CAL_SIZE (cal_bytes cal_data)) = CAL_SIZE \<and>
         rd32 content HIST_SIZE = 0xCA11B8ED)"
proof (cases "begin_ok fs")
  case False
  then show ?thesis by (simp add: load_calibration_from_file_def)
next
  case b: True
  show ?thesis
  proof (cases "files fs ''/histogram.bin''")
    case None
    then show ?thesis using b by (simp add: load_calibration_from_file_def)
  next
    case (Some content)
    define hs where "hs = fst (file_read content 0 HIST_SIZE (hist_bytes hist))"
    define cs where "cs = fst (file_read content hs CAL_SIZE (cal_bytes cal_data))"
    define cbuf where "cbuf = snd (file_read content hs CAL_SIZE (cal_bytes cal_data))"
    have r: "fst (load_calibration_from_file hist cal_data fs) \<longleftrightarrow>
        hs = HIST_SIZE \<and> cs = CAL_SIZE \<and> magic (cal_of_bytes cbuf) = CAL_MAGIC"
      using b Some
      by (simp add: load_calibration_from_file_def Let_def hs_def cs_def cbuf_def
          split: prod.splits)
    show ?thesis
    proof (cases "hs = HIST_SIZE \<and> cs = CAL_SIZE")
      case False
      then show ?thesis using b Some r by (auto simp: hs_def cs_def)
    next
      case True
      then have hsz: "hs = HIST_SIZE" and csz: "cs = CAL_SIZE" by simp_all
      have "min CAL_SIZE (length content - HIST_SIZE) = CAL_SIZE"
        using csz by (simp add: cs_def hsz file_read_fst)
      then have len: "HIST_SIZE + CAL_SIZE \<le> length content"
        by (simp add: CAL_SIZE_def HIST_SIZE_def)
      have "cbuf = take CAL_SIZE (drop HIST_SIZE content) @
          drop (length (take CAL_SIZE (drop HIST_SIZE content))) (cal_bytes cal_data)"
        by (simp add: cbuf_def hsz file_read_def Let_def)
      then have "rd32 cbuf 0 = rd32 (drop HIST_SIZE content) 0"
        using len by (simp only:) (intro rd32_take, simp_all add: CAL_SIZE_def HIST_SIZE_def)
      also have "\<dots> = rd32 content HIST_SIZE"
        using len by (intro rd32_drop) (simp add: CAL_SIZE_def)
      finally have m: "magic (cal_of_bytes cbuf) = rd32 content HIST_SIZE"
        by (simp add: cal_of_bytes_def)
      have h1: "fst (file_read content 0 HIST_SIZE (hist_bytes hist)) = HIST_SIZE"
        using hsz by (simp add: hs_def)
      have c1: "fst (file_read content HIST_SIZE CAL_SIZE (cal_bytes cal_data)) = CAL_SIZE"
        using csz by (simp add: cs_def hsz)
      show ?thesis using b Some r True m h1 c1
        by (simp add: CAL_MAGIC_def)
    qed
  qed
qed

text \<open>
  Claim C7. \<open>load_calibration\<close> returns true if and only if the store mounts, the
  binary file exists, the number of bytes read is the full record size, and the magic
  held in the file's first four bytes is \<open>0xCA11B8ED\<close>; in every other case (a wrong
  magic in a file of the full size, a short read, no file, no mount) it returns false.
  The loader of the application header asks, in the same way, for a full histogram, a
  full record and the magic that follows the histogram in its file.
\<close>

theorem load_valid_iff:
  "(fst (load_calibration cal_data fs) \<longleftrightarrow>
      begin_ok fs \<and>
      (\<exists>content. files fs ''/adc_cal.bin'' = Some content \<and>
         fst (file_read content 0 CAL_SIZE (cal_bytes cal_data)) = CAL_SIZE \<and>
         rd32 content 0 = 0xCA11B8ED)) \<and>
   (fst (load_calibration_from_file hist cal_data fs) \<longleftrightarrow>
      begin_ok fs \<and>
      (\<exists>content. files fs ''/histogram.bin'' = Some content \<and>
         fst (file_read content 0 HIST_SIZE (hist_bytes hist)) = HIST_SIZE \<and>
         fst (file_read content HIST_SIZE CAL_SIZE (cal_bytes cal_data)) = CAL_SIZE \<and>
         rd32 content HIST_SIZE = 0xCA11B8ED))"
  using load_calibration_result [of cal_data fs]
    load_calibration_from_file_result [of hist cal_data fs]
  by (rule conjI)

theorem load_valid_iff_witness:
  "fst (load_calibration cal_default fs_valid) \<and>
   \<not> fst (load_calibration cal_default fs_wrong_magic) \<and>
   \<not> fst (load_calibration cal_default fs_short) \<and>
   \<not> fst (load_calibration cal_default fs_blank)"
proof -
  have "fst (load_calibration cal_default fs_valid)"
    using load_valid_iff [of cal_default fs_valid]
    by (simp add: fs_valid_def file_read_def CAL_SIZE_def Let_def rd32_def)
  moreover have "\<not> fst (load_calibration cal_default fs_wrong_magic)"
    using load_valid_iff [of cal_default fs_wrong_magic]
    by (simp add: fs_wrong_magic_def rd32_def)
  moreover have "\<not> fst (load_calibration cal_default fs_short)"
    using load_valid_iff [of cal_default fs_short]
    by (simp add: fs_short_def file_read_def CAL_SIZE_def Let_def)
  moreover have "\<not> fst (load_calibration cal_default fs_blank)"
    using load_valid_iff [of cal_default fs_blank]
    by (simp add: fs_blank_def)
  ultimately show ?thesis by simp
qed

lemma load_wrong_magic:
  "load_calibration cal_default fs_wrong_magic =
     (False, cal_of_bytes (replicate 8200 1 @ drop 8200 (cal_bytes cal_default)))"
proof -
  have b: "begin_ok fs_wrong_magic"
    and f: "files fs_wrong_magic ''/adc_cal.bin'' = Some (replicate 8200 1)"
    by (simp_all add: fs_wrong_magic_def)
  have "rd32 (replicate 8200 1 @ drop 8200 (cal_bytes cal_default)) 0 \<noteq> CAL_MAGIC"
    by (simp add: rd32_def CAL_MAGIC_def nth_append)
  then show ?thesis
    by (simp add: load_calibration_read [OF b f] CAL_SIZE_def cal_of_bytes_def)
qed

lemma load_wrong_magic_entry:
  "correction (snd (load_calibration cal_default fs_wrong_magic)) ! 0 = 257"
  by (simp add: load_wrong_magic cal_of_bytes_def rd16_def nth_append)

text \<open>
  Claim C2, as stated, fails. The claim asks that a failed load leave the in-memory
  correction table as it was. \<open>load_calibration\<close> reads straight into \<open>cal_data\<close>: with
  a file of the full size whose magic is wrong, it returns false and the table, all zero
  before, holds the file's entries.
\<close>

theorem load_failure_overwrites:
  "\<not> fst (load_calibration cal_default fs_wrong_magic) \<and>
   correction (snd (load_calibration cal_default fs_wrong_magic)) \<noteq> correction cal_default"
proof -
  have "correction (snd (load_calibration cal_default fs_wrong_magic)) \<noteq> correction cal_default"
  proof
    assume "correction (snd (load_calibration cal_default fs_wrong_magic)) =
            correction cal_default"
    then have "correction (snd (load_calibration cal_default fs_wrong_magic)) ! 0 =
               correction cal_default ! 0" by simp
    moreover have "correction cal_default ! 0 = 0" by (simp add: cal_default_def)
    ultimately show False unfolding load_wrong_magic_entry by simp
  qed
  then show ?thesis by (simp add: load_wrong_magic)
qed

lemma load_buffer_from_file:
  assumes k: "k + 2 \<le> length content" "k + 2 \<le> n"
  shows "rd16 (take n content @ rest) k = rd16 content k"
  using k by (simp add: rd16_def nth_append)

lemma load_buffer_kept:
  assumes len: "length (correction cal_data) = 4096" and i: "i < 4096"
    and n: "m \<le> 4 + 2 * i" "length pre = m" "m \<le> 8200"
  shows "rd16 (pre @ drop m (cal_bytes cal_data)) (4 + 2 * i) = correction cal_data ! i"
proof -
  have l: "length (cal_bytes cal_data) = 8200" by (simp add: length_cal_bytes len)
  have "rd16 (pre @ drop m (cal_bytes cal_data)) (4 + 2 * i) =
        rd16 (cal_bytes cal_data) (4 + 2 * i)"
    using n i l by (simp add: rd16_def nth_append)
  also have "\<dots> = correction cal_data ! i"
    using cal_bytes_correction [of i cal_data "[]"] i len by simp
  finally show ?thesis .
qed

text \<open>
  Claim C2, amended. A load that fails before the read (the store does not mount, or the
  file is absent) returns false and leaves \<open>cal_data\<close> as it was. A load that fails
  at the read (a file shorter than the record, or a magic that does not match) returns
  false, and the bytes read have replaced the beginning of \<open>cal_data\<close>: a correction
  entry whose two bytes were read has the file's value, an entry that lies beyond the
  bytes read has the value it had before.
\<close>

theorem load_failure_effect:
  assumes len: "length (correction cal_data) = 4096"
  shows "(\<not> begin_ok fs \<or> files fs ''/adc_cal.bin'' = None \<longrightarrow>
            load_calibration cal_data fs = (False, cal_data)) \<and>
         (\<forall>content. begin_ok fs \<and> files fs ''/adc_cal.bin'' = Some content \<and>
            (length content < CAL_SIZE \<or> rd32 content 0 \<noteq> 0xCA11B8ED) \<longrightarrow>
            \<not> fst (load_calibration cal_data fs) \<and>
            (\<forall>i < 4096.
               (4 + 2 * i + 2 \<le> length content \<longrightarrow>
                  correction (snd (load_calibration cal_data fs)) ! i = rd16 content (4 + 2 * i)) \<and>
               (length content \<le> 4 + 2 * i \<longrightarrow>
                  correction (snd (load_calibration cal_data fs)) ! i = correction cal_data ! i)))"
proof (intro conjI allI impI)
  assume "\<not> begin_ok fs \<or> files fs ''/adc_cal.bin'' = None"
  then show "load_calibration cal_data fs = (False, cal_data)"
    by (auto simp: load_calibration_def)
next
  fix content
  assume a: "begin_ok fs \<and> files fs ''/adc_cal.bin'' = Some content \<and>
            (length content < CAL_SIZE \<or> rd32 content 0 \<noteq> 0xCA11B8ED)"
  then have b: "begin_ok fs" and f: "files fs ''/adc_cal.bin'' = Some content" by simp_all
  define n where "n = min CAL_SIZE (length content)"
  define buffer where "buffer = take CAL_SIZE content @ drop n (cal_bytes cal_data)"
  have r: "load_calibration cal_data fs =
      (n = CAL_SIZE \<and> magic (cal_of_bytes buffer) = CAL_MAGIC, cal_of_bytes buffer)"
    unfolding n_def buffer_def by (rule load_calibration_read [OF b f])
  show "\<not> fst (load_calibration cal_data fs)"
  proof (cases "length content < CAL_SIZE")
    case True
    then show ?thesis by (simp add: r n_def)
  next
    case False
    then have "rd32 content 0 \<noteq> 0xCA11B8ED" using a by simp
    moreover have "rd32 buffer 0 = rd32 content 0"
      using False by (simp add: buffer_def rd32_def nth_append CAL_SIZE_def)
    ultimately show ?thesis by (simp add: r cal_of_bytes_def CAL_MAGIC_def)
  qed
  fix i :: nat
  assume i: "i < 4096"
  have c: "correction (snd (load_calibration cal_data fs)) ! i = rd16 buffer (4 + 2 * i)"
    using i by (simp add: r cal_of_bytes_def)
  {
    assume "4 + 2 * i + 2 \<le> length content"
    then show "correction (snd (load_calibration cal_data fs)) ! i = rd16 content (4 + 2 * i)"
      unfolding c buffer_def using i
      by (intro load_buffer_from_file) (simp_all add: CAL_SIZE_def)
  }
  {
    assume s: "length content \<le> 4 + 2 * i"
    then have "n = length content" using i by (simp add: n_def CAL_SIZE_def)
    then show "correction (snd (load_calibration cal_data fs)) ! i = correction cal_data ! i"
      unfolding c buffer_def using i s len
      by (intro load_buffer_kept) (simp_all add: CAL_SIZE_def)
  }
qed

theorem load_failure_effect_witness:
  "load_calibration cal_default fs_blank = (False, cal_default) \<and>
   \<not> fst (load_calibration cal_default fs_short) \<and>
   correction (snd (load_calibration cal_default fs_short)) ! 0 = 7 \<and>
   correction (snd (load_calibration cal_default fs_short)) ! 1 = correction cal_default ! 1"
proof -
  let ?content = "[0xED, 0xB8, 0x11, 0xCA, 7, 0] :: byte list"
  have len: "length (correction cal_default) = 4096" by (simp add: cal_default_def)
  have blank: "load_calibration cal_default fs_blank = (False, cal_default)"
    using load_failure_effect [OF len, of fs_blank] by (simp add: fs_blank_def)
  have "begin_ok fs_short \<and> files fs_short ''/adc_cal.bin'' = Some ?content \<and>
      (length ?content < CAL_SIZE \<or> rd32 ?content 0 \<noteq> 0xCA11B8ED)"
    by (simp add: fs_short_def CAL_SIZE_def)
  with load_failure_effect [OF len, of fs_short]
  have short: "\<not> fst (load_calibration cal_default fs_short) \<and>
     (\<forall>i < 4096.
        (4 + 2 * i + 2 \<le> length ?content \<longrightarrow>
           correction (snd (load_calibration cal_default fs_short)) ! i =
           rd16 ?content (4 + 2 * i)) \<and>
        (length ?content \<le> 4 + 2 * i \<longrightarrow>
           correction (snd (load_calibration cal_default fs_short)) ! i =
           correction cal_default ! i))"
    by blast
  have "(0::nat) < 4096 \<and> 4 + 2 * 0 + 2 \<le> length ?content" by simp
  with short
  have "correction (snd (load_calibration cal_default fs_short)) ! 0 = rd16 ?content (4 + 2 * 0)"
    by blast
  then have e0: "correction (snd (load_calibration cal_default fs_short)) ! 0 = 7"
    by (simp add: rd16_def)
  have "(1::nat) < 4096 \<and> length ?content \<le> 4 + 2 * 1" by simp
  with short have e1: "correction (snd (load_calibration cal_default fs_short)) ! 1 =
      correction cal_default ! 1"
    by blast
  show ?thesis using blank short e0 e1 by simp
qed

end
